theory Spec2Isabelle
  imports Main "HOL-Library.Sublist"
begin

section \<open>The agentic orchestrator (server/agentic-orchestrator-streaming.js)\<close>

text \<open>
  The orchestrator is effectful JavaScript: it talks to a Redis broker through two
  clients, to the file system through \<open>fs.promises\<close>, to child processes and to the
  model provider. The embedding passes a \<open>world\<close> explicitly, turns every
  \<open>throw\<close> into an element of type \<open>exn\<close>, and takes what the outside decides (the
  provider's replies, whether a Redis command fails, what a child process does) as
  fields of an \<open>env\<close> that every theorem quantifies over.
\<close>

subsection \<open>Values and exceptions\<close>

datatype json =
    JNull
  | JBool bool
  | JNum int
  | JStr string
  | JArr "json list"
  | JObj "(string \<times> json) list"

text \<open>
  Thrown values. \<open>TypeError\<close> is what Node raises on a wrongly typed argument,
  \<open>SystemError code syscall path\<close> a failed system call (the path is missing when
  the call works on an open file), \<open>ExternalError\<close> an \<open>Error\<close> object made by
  the Redis client, a child process or the provider. \<open>message\<close> is the
  \<open>error.message\<close> the catch blocks read; for a failed system call Node builds it
  as \<open>CODE: description, syscall 'path'\<close>, with the description that libuv has
  for the code.
\<close>

datatype exn =
    TypeError string
  | SystemError string string "string option"
  | ExternalError string

definition errno_text :: "string \<Rightarrow> string" where
  "errno_text code =
     (if code = ''ENOENT'' then ''no such file or directory''
      else if code = ''EEXIST'' then ''file already exists''
      else if code = ''ENOTDIR'' then ''not a directory''
      else if code = ''EISDIR'' then ''illegal operation on a directory''
      else ''unknown error'')"

fun message :: "exn \<Rightarrow> string" where
  "message (TypeError m) = m"
| "message (SystemError code syscall p) =
     code @ '': '' @ errno_text code @ '', '' @ syscall
       @ (case p of None \<Rightarrow> [] | Some q \<Rightarrow> '' '' @ [CHR 0x27] @ q @ [CHR 0x27])"
| "message (ExternalError m) = m"

text \<open>A template literal prints a missing property as \<open>undefined\<close>.\<close>

definition tmpl :: "string option \<Rightarrow> string" where
  "tmpl v = (case v of None \<Rightarrow> ''undefined'' | Some s \<Rightarrow> s)"

text \<open>
  A property of an object literal that is \<open>undefined\<close> does not survive
  \<open>JSON.stringify\<close>; \<open>opt_str\<close> builds the property only when it is defined.
\<close>

definition opt_str :: "string \<Rightarrow> string option \<Rightarrow> (string \<times> json) list" where
  "opt_str k v = (case v of None \<Rightarrow> [] | Some s \<Rightarrow> [(k, JStr s)])"

subsection \<open>Node's \<open>path\<close> module on POSIX\<close>

text \<open>
  \<open>path.join\<close> and \<open>path.dirname\<close> are library code; they are modelled after
  Node's \<open>lib/path.js\<close>. \<open>normalizeString\<close> works on the \<open>/\<close>-separated segments:
  an empty segment and \<open>.\<close> vanish, \<open>..\<close> removes the segment before it, and a
  \<open>..\<close> with nothing to remove is kept only when \<open>allowAboveRoot\<close> holds (the
  path is relative).
\<close>

fun split_path :: "string \<Rightarrow> string list" where
  "split_path [] = [ [] ]"
| "split_path (c # cs) =
     (if c = CHR ''/'' then [] # split_path cs
      else (case split_path cs of [] \<Rightarrow> [ [c] ] | s # ss \<Rightarrow> (c # s) # ss))"

fun join_segs :: "string list \<Rightarrow> string" where
  "join_segs [] = []"
| "join_segs [s] = s"
| "join_segs (s # t # ss) = s @ ''/'' @ join_segs (t # ss)"

definition normStep :: "bool \<Rightarrow> string list \<Rightarrow> string \<Rightarrow> string list" where
  "normStep allowAboveRoot stack seg =
     (if seg = [] \<or> seg = ''.'' then stack
      else if seg = ''..'' then
        (case stack of
           [] \<Rightarrow> (if allowAboveRoot then [''..''] else [])
         | t # ts \<Rightarrow>
             (if t = ''..'' then (if allowAboveRoot then ''..'' # t # ts else t # ts)
              else ts))
      else seg # stack)"

definition normalizeString :: "bool \<Rightarrow> string list \<Rightarrow> string list" where
  "normalizeString allowAboveRoot segs = rev (foldl (normStep allowAboveRoot) [] segs)"

definition isAbsolute :: "string \<Rightarrow> bool" where
  "isAbsolute p = (p \<noteq> [] \<and> hd p = CHR ''/'')"

definition trailingSeparator :: "string \<Rightarrow> bool" where
  "trailingSeparator p = (p \<noteq> [] \<and> last p = CHR ''/'')"

definition posix_normalize :: "string \<Rightarrow> string" where
  "posix_normalize p =
     (if p = [] then ''.''
      else
        let segs = normalizeString (\<not> isAbsolute p) (split_path p) in
        if segs = [] then
          (if isAbsolute p then ''/'' else if trailingSeparator p then ''./'' else ''.'')
        else
          (if isAbsolute p then ''/'' else []) @ join_segs segs
            @ (if trailingSeparator p then ''/'' else []))"

definition posix_join :: "string \<Rightarrow> string \<Rightarrow> string" where
  "posix_join a b =
     (if a = [] \<and> b = [] then ''.''
      else if a = [] then posix_normalize b
      else if b = [] then posix_normalize a
      else posix_normalize (a @ ''/'' @ b))"

text \<open>\<open>path.join\<close> validates its arguments: a missing one is a \<open>TypeError\<close>.\<close>

definition path_join :: "string \<Rightarrow> string option \<Rightarrow> exn + string" where
  "path_join a b =
     (case b of
        None \<Rightarrow> Inl (TypeError ''The \"path\" argument must be of type string. Received undefined'')
      | Some s \<Rightarrow> Inr (posix_join a s))"

text \<open>
  \<open>path.dirname\<close>: scanning from the end down to index 1, skip the trailing
  slashes, skip the last segment, and cut before the slash found there.
\<close>

definition posix_dirname :: "string \<Rightarrow> string" where
  "posix_dirname p =
     (if p = [] then ''.''
      else
        (case dropWhile (\<lambda>c. c \<noteq> CHR ''/'')
                (dropWhile (\<lambda>c. c = CHR ''/'') (rev (tl p))) of
           [] \<Rightarrow> (if isAbsolute p then ''/'' else ''.'')
         | _ # rest \<Rightarrow>
             (if isAbsolute p \<and> rest = [] then ''//'' else hd p # rev rest)))"

subsection \<open>The file system\<close>

text \<open>
  Entries are keyed by their absolute path, as the list of its segments; the root
  \<open>[]\<close> is always a directory. The operating system resolves a path string against
  the working directory of the process, segment by segment. The model is a plain
  tree of directories and regular files: it has no symbolic links (the real calls
  follow them) and no limit on the length of a name, so what is proved of
  \<open>os_segs\<close> below is about the path as it is written.
\<close>

datatype node = File string | Dir

type_synonym fsys = "(string list \<times> node) list"

definition fs_lookup :: "fsys \<Rightarrow> string list \<Rightarrow> node option" where
  "fs_lookup fs p = (if p = [] then Some Dir else map_of fs p)"

definition fs_put :: "fsys \<Rightarrow> string list \<Rightarrow> node \<Rightarrow> fsys" where
  "fs_put fs p n = (p, n) # filter (\<lambda>e. fst e \<noteq> p) fs"

definition os_segs :: "string list \<Rightarrow> string \<Rightarrow> string list" where
  "os_segs cwd p = normalizeString False ((if isAbsolute p then [] else cwd) @ split_path p)"

text \<open>\<open>fs.mkdir(p, {recursive: true})\<close>: every missing directory on the way is made.\<close>

fun mkdirp :: "string \<Rightarrow> fsys \<Rightarrow> string list \<Rightarrow> string list \<Rightarrow> exn + fsys" where
  "mkdirp p fs pre [] = Inr fs"
| "mkdirp p fs pre (s # ss) =
     (case fs_lookup fs (pre @ [s]) of
        None \<Rightarrow> mkdirp p (fs_put fs (pre @ [s]) Dir) (pre @ [s]) ss
      | Some Dir \<Rightarrow> mkdirp p fs (pre @ [s]) ss
      | Some (File _) \<Rightarrow>
          Inl (SystemError (if ss = [] then ''EEXIST'' else ''ENOTDIR'') ''mkdir'' (Some p)))"

definition fs_mkdir :: "string list \<Rightarrow> fsys \<Rightarrow> string \<Rightarrow> exn + fsys" where
  "fs_mkdir cwd fs p = mkdirp p fs [] (os_segs cwd p)"

text \<open>
  \<open>fs.writeFile(p, data, 'utf8')\<close>: the data is checked before the file is opened;
  the file is created or replaced when its parent is a directory and the path does
  not name a directory.
\<close>

definition fs_writeFile :: "string list \<Rightarrow> fsys \<Rightarrow> string \<Rightarrow> string option \<Rightarrow> exn + fsys" where
  "fs_writeFile cwd fs p data =
     (case data of
        None \<Rightarrow> Inl (TypeError
                 (''The \"data\" argument must be of type string or an instance of ''
                  @ ''Buffer, TypedArray, or DataView. Received undefined''))
      | Some d \<Rightarrow>
          let segs = os_segs cwd p in
          if segs = [] then Inl (SystemError ''EISDIR'' ''open'' (Some p))
          else
            (case fs_lookup fs (butlast segs) of
               None \<Rightarrow> Inl (SystemError ''ENOENT'' ''open'' (Some p))
             | Some (File _) \<Rightarrow> Inl (SystemError ''ENOTDIR'' ''open'' (Some p))
             | Some Dir \<Rightarrow>
                 (case fs_lookup fs segs of
                    Some Dir \<Rightarrow> Inl (SystemError ''EISDIR'' ''open'' (Some p))
                  | Some (File _) \<Rightarrow>
                      (if trailingSeparator p then Inl (SystemError ''ENOTDIR'' ''open'' (Some p))
                       else Inr (fs_put fs segs (File d)))
                  | None \<Rightarrow>
                      (if trailingSeparator p then Inl (SystemError ''EISDIR'' ''open'' (Some p))
                       else Inr (fs_put fs segs (File d))))))"

definition fs_readFile :: "string list \<Rightarrow> fsys \<Rightarrow> string \<Rightarrow> exn + string" where
  "fs_readFile cwd fs p =
     (case fs_lookup fs (os_segs cwd p) of
        None \<Rightarrow> Inl (SystemError ''ENOENT'' ''open'' (Some p))
      | Some Dir \<Rightarrow> Inl (SystemError ''EISDIR'' ''read'' None)
      | Some (File c) \<Rightarrow>
          (if trailingSeparator p then Inl (SystemError ''ENOTDIR'' ''open'' (Some p)) else Inr c))"

text \<open>\<open>fs.readdir(p, {withFileTypes: true})\<close>: each entry with its \<open>isDirectory()\<close>.\<close>

definition fs_readdir :: "string list \<Rightarrow> fsys \<Rightarrow> string \<Rightarrow> exn + (string \<times> bool) list" where
  "fs_readdir cwd fs p =
     (let segs = os_segs cwd p in
      case fs_lookup fs segs of
        None \<Rightarrow> Inl (SystemError ''ENOENT'' ''scandir'' (Some p))
      | Some (File _) \<Rightarrow> Inl (SystemError ''ENOTDIR'' ''scandir'' (Some p))
      | Some Dir \<Rightarrow>
          Inr (map (\<lambda>e. (last (fst e), snd e = Dir))
                 (filter (\<lambda>e. fst e \<noteq> [] \<and> butlast (fst e) = segs) fs)))"

subsection \<open>JavaScript string methods\<close>

fun startsWith :: "string \<Rightarrow> string \<Rightarrow> bool" where
  "startsWith s [] = True"
| "startsWith [] (c # cs) = False"
| "startsWith (d # ds) (c # cs) = (d = c \<and> startsWith ds cs)"

text \<open>\<open>s.includes(t)\<close>: \<open>t\<close> occurs in \<open>s\<close>; the empty string occurs in every string.\<close>

fun str_includes :: "string \<Rightarrow> string \<Rightarrow> bool" where
  "str_includes [] t = (t = [])"
| "str_includes (c # cs) t = (startsWith (c # cs) t \<or> str_includes cs t)"

text \<open>
  \<open>s.replace(pattern, replacement)\<close> with a string pattern replaces the first
  occurrence only, and expands \<open>$$\<close>, \<open>$&\<close>, \<open>$`\<close> and \<open>$'\<close> in the replacement
  (there are no capture groups, so \<open>$1\<close> stays as it is).
\<close>

fun getSubstitution :: "string \<Rightarrow> string \<Rightarrow> string \<Rightarrow> string \<Rightarrow> string" where
  "getSubstitution matched pre post [] = []"
| "getSubstitution matched pre post [c] = [c]"
| "getSubstitution matched pre post (c # d # r) =
     (if c = CHR ''$'' \<and> d = CHR ''$'' then CHR ''$'' # getSubstitution matched pre post r
      else if c = CHR ''$'' \<and> d = CHR ''&'' then matched @ getSubstitution matched pre post r
      else if c = CHR ''$'' \<and> d = CHR 0x60 then pre @ getSubstitution matched pre post r
      else if c = CHR ''$'' \<and> d = CHR 0x27 then post @ getSubstitution matched pre post r
      else c # getSubstitution matched pre post (d # r))"

fun replace_from :: "string \<Rightarrow> string \<Rightarrow> string \<Rightarrow> string \<Rightarrow> string" where
  "replace_from pre [] pat rep =
     (if pat = [] then pre @ getSubstitution pat pre [] rep else pre)"
| "replace_from pre (c # cs) pat rep =
     (if startsWith (c # cs) pat
      then pre @ getSubstitution pat pre (drop (length pat) (c # cs)) rep
             @ drop (length pat) (c # cs)
      else replace_from (pre @ [c]) cs pat rep)"

definition replace :: "string \<Rightarrow> string \<Rightarrow> string \<Rightarrow> string" where
  "replace s pat rep = replace_from [] s pat rep"

text \<open>\<open>content.split('\n').length\<close>: one more than the number of line feeds.\<close>

definition line_count :: "string \<Rightarrow> int" where
  "line_count s = int (length (filter (\<lambda>c. c = CHR 0x0A) s)) + 1"

subsection \<open>Tool calls, tool results, progress events\<close>

text \<open>
  The input of a tool call is a structured map. Its properties carry the types that
  the catalogue \<open>TOOLS\<close> declares for them; the dispatcher does not check that a
  required property is there, so each of them may be missing (\<open>None\<close>).
\<close>

record tool_input =
  path :: "string option"
  content :: "string option"
  old_content :: "string option"
  new_content :: "string option"
  package :: "string option"
  dev :: "bool option"
  query :: "string option"
  command :: "string option"
  prompt :: "string option"
  filename :: "string option"
  summary :: "string option"
  files_modified :: "string list option"

record tool_use =
  tu_id :: string
  tu_name :: string
  tu_input :: tool_input

text \<open>
  A ToolResult: \<open>success\<close>, the \<open>error\<close> string when there is one, and the other
  properties of the object literal in \<open>payload\<close>.
\<close>

record tool_result =
  success :: bool
  error :: "string option"
  payload :: "(string \<times> json) list"

record task_context =
  ctx_taskId :: string
  ctx_projectId :: string
  ctx_userId :: string

text \<open>
  The object handed to \<open>publishProgress\<close>, one constructor for each \<open>type\<close>.
  \<open>TaskCompleted\<close> carries the three properties that the two places building it
  use: \<open>summary\<close> and \<open>files_modified\<close> (after \<open>task_complete\<close>), or \<open>message\<close>
  (a reply without tool calls).
\<close>

datatype progress_event =
    TaskStarted string
  | IterationStart nat
  | ThinkingStart
  | ToolStart string
  | ThinkingChunk string
  | ToolExecuting string tool_input
  | ToolResultEvent string tool_result
  | TaskCompleted "string option" "string list option" "string option"
  | TaskWarning
  | TaskError string

text \<open>What travels on a Redis channel: the JSON documents of the three publishers.\<close>

datatype broadcast =
    Progress nat progress_event
  | FileChange string "string option" "string option"
  | TaskDone string string nat bool

subsection \<open>Environment and world\<close>

text \<open>
  The Redis commands the orchestrator issues while it works on a task:
  \<open>redisPub.publish(channel, ...)\<close> and \<open>redisClient.set(key, ...)\<close>.
\<close>

datatype redis_command =
    PUBLISH string
  | SET string

text \<open>
  \<open>redisFails n c\<close> tells whether the \<open>n\<close>-th Redis command of the run, which is
  \<open>c\<close>, throws, and with what message; \<open>provider\<close> is \<open>anthropic.messages.create\<close> with
  \<open>stream: true\<close>, applied to the conversation (the system prompt and the tool
  catalogue are constants); \<open>execAsync\<close> runs a command in a directory and may
  change the file system in any way before it succeeds or fails; \<open>clock\<close> is
  \<open>Date.now()\<close>.
\<close>

datatype content_block =
    TextBlock string
  | ToolUseBlock tool_use

datatype chat_message =
    UserPrompt string
  | Assistant "content_block list"
  | ToolResults "(string \<times> tool_result) list"

text \<open>
  Stream events, as far as \<open>processTask\<close> reads them. A
  \<open>content_block_start\<close> carries its content block and a
  \<open>content_block_delta\<close> its delta; the \<open>content_block\<close> of a
  \<open>content_block_stop\<close> is read with \<open>?.\<close>, so it may be missing there.
\<close>

datatype stream_block =
    BText
  | BToolUse tool_use
  | BOther

datatype stream_delta =
    TextDelta string
  | OtherDelta

datatype stream_event =
    ContentBlockStart stream_block
  | ContentBlockDelta stream_delta
  | ContentBlockStop "stream_block option"
  | MessageStop
  | OtherEvent

record env =
  WORKSPACE_ROOT :: string
  AGENT_TYPE :: string
  cwd :: "string list"
  clock :: "nat \<Rightarrow> nat"
  redisFails :: "nat \<Rightarrow> redis_command \<Rightarrow> string option"
  provider :: "chat_message list \<Rightarrow> exn + (stream_event list \<times> exn option)"
  execAsync :: "string \<Rightarrow> string \<Rightarrow> fsys \<Rightarrow> fsys \<times> (string + string \<times> string)"

text \<open>
  \<open>files\<close> is the file system; \<open>stored\<close> lists the \<open>SET\<close> commands that went
  through, oldest first, as (key, document, seconds to live); \<open>delivered\<close> lists the
  messages that reached a channel; \<open>emitted\<close> lists the calls of
  \<open>publishProgress\<close>, whether or not the message reached the channel; \<open>ops\<close>
  counts the Redis commands issued.
\<close>

record world =
  files :: fsys
  stored :: "(string \<times> json \<times> nat) list"
  delivered :: "(string \<times> broadcast) list"
  emitted :: "(string \<times> progress_event) list"
  ops :: nat

definition redis_publish :: "env \<Rightarrow> string \<Rightarrow> broadcast \<Rightarrow> world \<Rightarrow> world \<times> exn option" where
  "redis_publish e channel m w =
     (case redisFails e (ops w) (PUBLISH channel) of
        Some err \<Rightarrow> (w\<lparr>ops := Suc (ops w)\<rparr>, Some (ExternalError err))
      | None \<Rightarrow>
          (w\<lparr>ops := Suc (ops w), delivered := delivered w @ [(channel, m)]\<rparr>, None))"

definition redis_set :: "env \<Rightarrow> string \<Rightarrow> json \<Rightarrow> nat \<Rightarrow> world \<Rightarrow> world \<times> exn option" where
  "redis_set e key v ex w =
     (case redisFails e (ops w) (SET key) of
        Some err \<Rightarrow> (w\<lparr>ops := Suc (ops w)\<rparr>, Some (ExternalError err))
      | None \<Rightarrow>
          (w\<lparr>ops := Suc (ops w), stored := stored w @ [(key, v, ex)]\<rparr>, None))"

text \<open>\<open>publishProgress\<close> catches what \<open>publish\<close> throws and only logs it.\<close>

definition publishProgress :: "env \<Rightarrow> string \<Rightarrow> progress_event \<Rightarrow> world \<Rightarrow> world" where
  "publishProgress e taskId ev w =
     fst (redis_publish e (''progress:'' @ taskId) (Progress (clock e (ops w)) ev)
            (w\<lparr>emitted := emitted w @ [(taskId, ev)]\<rparr>))"

subsection \<open>\<open>executeTool\<close>\<close>

definition failure :: "string \<Rightarrow> tool_result" where
  "failure m = \<lparr>success = False, error = Some m, payload = []\<rparr>"

definition succeeded :: "(string \<times> json) list \<Rightarrow> tool_result" where
  "succeeded ps = \<lparr>success = True, error = None, payload = ps\<rparr>"

definition create_file :: "env \<Rightarrow> string \<Rightarrow> string \<Rightarrow> tool_input \<Rightarrow> world \<Rightarrow> world \<times> tool_result" where
  "create_file e projectId projectRoot inp w =
     (case path_join projectRoot (path inp) of
        Inl x \<Rightarrow> (w, failure (message x))
      | Inr filePath \<Rightarrow>
          (case fs_mkdir (cwd e) (files w) (posix_dirname filePath) of
             Inl x \<Rightarrow> (w, failure (message x))
           | Inr fs1 \<Rightarrow>
               (case fs_writeFile (cwd e) fs1 filePath (content inp) of
                  Inl x \<Rightarrow> (w\<lparr>files := fs1\<rparr>, failure (message x))
                | Inr fs2 \<Rightarrow>
                    (case redis_publish e (''files:'' @ projectId)
                            (FileChange ''create'' (path inp) (content inp))
                            (w\<lparr>files := fs2\<rparr>) of
                       (w', Some x) \<Rightarrow> (w', failure (message x))
                     | (w', None) \<Rightarrow>
                         (w', succeeded
                            ((''message'', JStr (''Created file: '' @ tmpl (path inp)))
                             # opt_str ''path'' (path inp)))))))"

definition edit_file :: "env \<Rightarrow> string \<Rightarrow> string \<Rightarrow> tool_input \<Rightarrow> world \<Rightarrow> world \<times> tool_result" where
  "edit_file e projectId projectRoot inp w =
     (case path_join projectRoot (path inp) of
        Inl x \<Rightarrow> (w, failure (message x))
      | Inr filePath \<Rightarrow>
          (case fs_readFile (cwd e) (files w) filePath of
             Inl x \<Rightarrow> (w, failure (message x))
           | Inr c \<Rightarrow>
               if \<not> str_includes c (tmpl (old_content inp)) then
                 (w, failure (''Old content not found in '' @ tmpl (path inp)
                               @ ''. The file may have changed.''))
               else
                 let c' = replace c (tmpl (old_content inp)) (tmpl (new_content inp)) in
                 (case fs_writeFile (cwd e) (files w) filePath (Some c') of
                    Inl x \<Rightarrow> (w, failure (message x))
                  | Inr fs2 \<Rightarrow>
                      (case redis_publish e (''files:'' @ projectId)
                              (FileChange ''edit'' (path inp) (Some c'))
                              (w\<lparr>files := fs2\<rparr>) of
                         (w', Some x) \<Rightarrow> (w', failure (message x))
                       | (w', None) \<Rightarrow>
                           (w', succeeded
                              ((''message'', JStr (''Edited file: '' @ tmpl (path inp)))
                               # opt_str ''path'' (path inp)))))))"

definition read_file :: "env \<Rightarrow> string \<Rightarrow> tool_input \<Rightarrow> world \<Rightarrow> world \<times> tool_result" where
  "read_file e projectRoot inp w =
     (case path_join projectRoot (path inp) of
        Inl x \<Rightarrow> (w, failure (message x))
      | Inr filePath \<Rightarrow>
          (case fs_readFile (cwd e) (files w) filePath of
             Inl x \<Rightarrow> (w, failure (message x))
           | Inr c \<Rightarrow>
               (w, succeeded
                     ((''content'', JStr c) # opt_str ''path'' (path inp)
                      @ [(''lines'', JNum (line_count c))]))))"

text \<open>\<open>toolInput.path || ''\<close>: a missing or empty path is the project root itself.\<close>

definition or_empty :: "string option \<Rightarrow> string" where
  "or_empty v = (case v of None \<Rightarrow> [] | Some s \<Rightarrow> s)"

definition list_files :: "env \<Rightarrow> string \<Rightarrow> tool_input \<Rightarrow> world \<Rightarrow> world \<times> tool_result" where
  "list_files e projectRoot inp w =
     (case fs_readdir (cwd e) (files w) (posix_join projectRoot (or_empty (path inp))) of
        Inl x \<Rightarrow> (w, failure (message x))
      | Inr entries \<Rightarrow>
          (w, succeeded
                [(''directories'',
                    JArr (map (\<lambda>en. JStr (fst en @ ''/'')) (filter snd entries))),
                 (''files'',
                    JArr (map (\<lambda>en. JStr (fst en)) (filter (\<lambda>en. \<not> snd en) entries))),
                 (''path'',
                    JStr (if or_empty (path inp) = [] then ''/'' else or_empty (path inp)))]))"

definition install_package :: "env \<Rightarrow> string \<Rightarrow> tool_input \<Rightarrow> world \<Rightarrow> world \<times> tool_result" where
  "install_package e projectRoot inp w =
     (let flag = (if dev inp = Some True then ''--save-dev'' else ''--save'') in
      case execAsync e (''npm install '' @ flag @ '' '' @ tmpl (package inp)) projectRoot (files w) of
        (fs', Inl m) \<Rightarrow> (w\<lparr>files := fs'\<rparr>, failure m)
      | (fs', Inr out) \<Rightarrow>
          (w\<lparr>files := fs'\<rparr>,
           succeeded
             ((''message'', JStr (''Installed '' @ tmpl (package inp)))
              # opt_str ''package'' (package inp) @ [(''output'', JStr (fst out))])))"

definition execute_command :: "env \<Rightarrow> string \<Rightarrow> tool_input \<Rightarrow> world \<Rightarrow> world \<times> tool_result" where
  "execute_command e projectRoot inp w =
     (case command inp of
        None \<Rightarrow>
          (w, failure ''The \"command\" argument must be of type string. Received undefined'')
      | Some c \<Rightarrow>
          (case execAsync e c projectRoot (files w) of
             (fs', Inl m) \<Rightarrow> (w\<lparr>files := fs'\<rparr>, failure m)
           | (fs', Inr out) \<Rightarrow>
               (w\<lparr>files := fs'\<rparr>,
                succeeded
                  [(''stdout'', JStr (fst out)), (''stderr'', JStr (snd out)),
                   (''command'', JStr c)])))"

definition task_complete :: "tool_input \<Rightarrow> tool_result" where
  "task_complete inp =
     succeeded
       ((''completed'', JBool True) # opt_str ''summary'' (summary inp)
        @ [(''files_modified'',
              JArr (map JStr (case files_modified inp of None \<Rightarrow> [] | Some fs \<Rightarrow> fs)))])"

text \<open>
  The dispatcher. \<open>projectRoot\<close> is computed before the \<open>try\<close>; every exception
  inside the \<open>try\<close> becomes a failure result carrying \<open>error.message\<close>, and the
  world stays as the steps before the exception left it.
\<close>

definition executeTool :: "env \<Rightarrow> string \<Rightarrow> tool_input \<Rightarrow> task_context \<Rightarrow> world \<Rightarrow> world \<times> tool_result" where
  "executeTool e toolName toolInput taskContext w =
     (let projectId = ctx_projectId taskContext;
          projectRoot = posix_join (WORKSPACE_ROOT e) projectId in
      if toolName = ''create_file'' then create_file e projectId projectRoot toolInput w
      else if toolName = ''edit_file'' then edit_file e projectId projectRoot toolInput w
      else if toolName = ''read_file'' then read_file e projectRoot toolInput w
      else if toolName = ''list_files'' then list_files e projectRoot toolInput w
      else if toolName = ''install_package'' then install_package e projectRoot toolInput w
      else if toolName = ''web_search'' then
        (w, succeeded
              [(''message'', JStr (''Searched for: '' @ tmpl (query toolInput))),
               (''results'',
                  JArr [JObj [(''title'', JStr ''Search result placeholder''),
                              (''snippet'', JStr ''In production, integrate with real search API'')]])])
      else if toolName = ''execute_command'' then execute_command e projectRoot toolInput w
      else if toolName = ''generate_image'' then
        (w, succeeded
              ((''message'', JStr (''Would generate image: '' @ tmpl (prompt toolInput)))
               # opt_str ''filename'' (filename toolInput)
               @ [(''note'', JStr ''In production, integrate with OpenAI DALL-E 3 API'')]))
      else if toolName = ''task_complete'' then (w, task_complete toolInput)
      else (w, failure (''Unknown tool: '' @ toolName)))"

subsection \<open>\<open>processTask\<close>\<close>

text \<open>
  A Task as \<open>JSON.parse\<close> delivers it; \<open>task_prompt\<close> is its \<open>prompt\<close> and
  \<open>task_data\<close> its opaque \<open>context\<close> map, which \<open>processTask\<close> never reads.
\<close>

record task =
  taskId :: string
  userId :: string
  projectId :: string
  task_prompt :: string
  task_data :: json

definition maxIterations :: nat where
  "maxIterations = 20"

text \<open>The three variables of one pass over the stream.\<close>

record stream_state =
  currentThinking :: string
  toolUses :: "tool_use list"
  assistantContent :: "content_block list"

definition stream_init :: stream_state where
  "stream_init = \<lparr>currentThinking = [], toolUses = [], assistantContent = []\<rparr>"

definition on_stream_event :: "env \<Rightarrow> string \<Rightarrow> stream_event \<Rightarrow> world \<times> stream_state \<Rightarrow> world \<times> stream_state" where
  "on_stream_event e tid ev ws =
     (case ws of (w, st) \<Rightarrow>
        (case ev of
           ContentBlockStart b \<Rightarrow>
             (case b of
                BText \<Rightarrow> (publishProgress e tid ThinkingStart w, st)
              | BToolUse tu \<Rightarrow> (publishProgress e tid (ToolStart (tu_name tu)) w, st)
              | BOther \<Rightarrow> (w, st))
         | ContentBlockDelta d \<Rightarrow>
             (case d of
                TextDelta t \<Rightarrow>
                  (publishProgress e tid (ThinkingChunk t) w,
                   st\<lparr>currentThinking := currentThinking st @ t\<rparr>)
              | OtherDelta \<Rightarrow> (w, st))
         | ContentBlockStop cb \<Rightarrow>
             (case cb of
                Some BText \<Rightarrow>
                  (w, st\<lparr>assistantContent :=
                            assistantContent st @ [TextBlock (currentThinking st)],
                          currentThinking := []\<rparr>)
              | Some (BToolUse tu) \<Rightarrow>
                  (w, st\<lparr>toolUses := toolUses st @ [tu],
                          assistantContent := assistantContent st @ [ToolUseBlock tu]\<rparr>)
              | Some BOther \<Rightarrow> (w, st)
              | None \<Rightarrow> (w, st))
         | MessageStop \<Rightarrow> (w, st)
         | OtherEvent \<Rightarrow> (w, st)))"

text \<open>
  \<open>for await (const event of stream)\<close>: the events one after the other, leaving at
  \<open>message_stop\<close>; \<open>tail\<close> is the exception the stream ends with, if any.
\<close>

fun process_stream :: "env \<Rightarrow> string \<Rightarrow> stream_event list \<Rightarrow> exn option \<Rightarrow> world \<times> stream_state \<Rightarrow> world \<times> (exn + stream_state)" where
  "process_stream e tid [] tail ws =
     (fst ws, (case tail of None \<Rightarrow> Inr (snd ws) | Some x \<Rightarrow> Inl x))"
| "process_stream e tid (ev # evs) tail ws =
     (if ev = MessageStop then (fst ws, Inr (snd ws))
      else process_stream e tid evs tail (on_stream_event e tid ev ws))"

text \<open>
  \<open>for (const toolUse of toolUses)\<close>: every tool of the batch is executed, in
  order. \<open>run_tool\<close> is the body of that loop; a successful \<open>task_complete\<close> sets
  \<open>completed\<close>, and the loop goes on with the tools after it.
\<close>

definition run_tool :: "env \<Rightarrow> task \<Rightarrow> tool_use \<Rightarrow> world \<times> (string \<times> tool_result) list \<times> bool \<Rightarrow> world \<times> (string \<times> tool_result) list \<times> bool" where
  "run_tool e t toolUse acc =
     (case acc of (w, toolResults, completed) \<Rightarrow>
        (let w1 = publishProgress e (taskId t)
                    (ToolExecuting (tu_name toolUse) (tu_input toolUse)) w;
             r = executeTool e (tu_name toolUse) (tu_input toolUse)
                   \<lparr>ctx_taskId = taskId t, ctx_projectId = projectId t, ctx_userId = userId t\<rparr> w1;
             w3 = publishProgress e (taskId t) (ToolResultEvent (tu_name toolUse) (snd r)) (fst r);
             toolResults' = toolResults @ [(tu_id toolUse, snd r)]
         in if tu_name toolUse = ''task_complete'' \<and> success (snd r)
            then (publishProgress e (taskId t)
                    (TaskCompleted (summary (tu_input toolUse))
                       (files_modified (tu_input toolUse)) None) w3,
                  toolResults', True)
            else (w3, toolResults', completed)))"

fun run_tools :: "env \<Rightarrow> task \<Rightarrow> tool_use list \<Rightarrow> world \<times> (string \<times> tool_result) list \<times> bool \<Rightarrow> world \<times> (string \<times> tool_result) list \<times> bool" where
  "run_tools e t [] acc = acc"
| "run_tools e t (toolUse # rest) acc = run_tools e t rest (run_tool e t toolUse acc)"

text \<open>
  The body of the \<open>while\<close> loop, with \<open>iterations\<close> already incremented. It
  returns the world, and either the exception that leaves the loop or the new
  conversation and \<open>completed\<close>.
\<close>

definition iteration :: "env \<Rightarrow> task \<Rightarrow> nat \<Rightarrow> world \<Rightarrow> chat_message list \<Rightarrow> bool \<Rightarrow> world \<times> (exn + chat_message list \<times> bool)" where
  "iteration e t iterations w messages completed =
     (let w1 = publishProgress e (taskId t) (IterationStart iterations) w in
      case provider e messages of
        Inl x \<Rightarrow> (w1, Inl x)
      | Inr reply \<Rightarrow>
          (case process_stream e (taskId t) (fst reply) (snd reply) (w1, stream_init) of
             (w2, Inl x) \<Rightarrow> (w2, Inl x)
           | (w2, Inr st) \<Rightarrow>
               (let messages1 = messages @ [Assistant (assistantContent st)] in
                if toolUses st \<noteq> [] then
                  (case run_tools e t (toolUses st) (w2, [], completed) of
                     (w3, toolResults, completed') \<Rightarrow>
                       (w3, Inr (messages1 @ [ToolResults toolResults], completed')))
                else
                  (publishProgress e (taskId t)
                     (TaskCompleted None None
                        (Some ''Agent completed thinking, no more actions needed'')) w2,
                   Inr (messages1, True)))))"

function agent_loop :: "env \<Rightarrow> task \<Rightarrow> world \<Rightarrow> chat_message list \<Rightarrow> nat \<Rightarrow> bool \<Rightarrow> world \<times> (exn + chat_message list \<times> nat \<times> bool)" where
  "agent_loop e t w messages iterations completed =
     (if \<not> completed \<and> iterations < maxIterations then
        (case iteration e t (Suc iterations) w messages completed of
           (w', Inl x) \<Rightarrow> (w', Inl x)
         | (w', Inr (messages', completed')) \<Rightarrow>
             agent_loop e t w' messages' (Suc iterations) completed')
      else (w, Inr (messages, iterations, completed)))"
  by pat_completeness auto
termination
  by (relation "measure (\<lambda>(e, t, w, messages, iterations, completed). maxIterations - iterations)")
     auto

definition success_record :: "env \<Rightarrow> task \<Rightarrow> nat \<Rightarrow> bool \<Rightarrow> world \<Rightarrow> json" where
  "success_record e t iterations completed w =
     JObj [(''taskId'', JStr (taskId t)),
           (''agentType'', JStr (AGENT_TYPE e)),
           (''iterations'', JNum (int iterations)),
           (''completed'', JBool completed),
           (''timestamp'', JNum (int (clock e (ops w))))]"

definition error_record :: "env \<Rightarrow> task \<Rightarrow> exn \<Rightarrow> world \<Rightarrow> json" where
  "error_record e t x w =
     JObj [(''taskId'', JStr (taskId t)),
           (''agentType'', JStr (AGENT_TYPE e)),
           (''error'', JStr (message x)),
           (''timestamp'', JNum (int (clock e (ops w))))]"

text \<open>The \<open>try\<close> block: the loop, the warning, the result, the completion broadcast.\<close>

definition try_block :: "env \<Rightarrow> task \<Rightarrow> world \<Rightarrow> world \<times> exn option" where
  "try_block e t w =
     (case agent_loop e t w [UserPrompt (task_prompt t)] 0 False of
        (w2, Inl x) \<Rightarrow> (w2, Some x)
      | (w2, Inr (messages, iterations, completed)) \<Rightarrow>
          (let w3 = (if iterations \<ge> maxIterations
                     then publishProgress e (taskId t) TaskWarning w2 else w2) in
           case redis_set e (''result:'' @ taskId t)
                  (success_record e t iterations completed w3) 3600 w3 of
             (w4, Some x) \<Rightarrow> (w4, Some x)
           | (w4, None) \<Rightarrow>
               redis_publish e ''task-completed''
                 (TaskDone (taskId t) (AGENT_TYPE e) iterations completed) w4))"

text \<open>The \<open>catch\<close> block; what it throws leaves \<open>processTask\<close>.\<close>

definition catch_block :: "env \<Rightarrow> task \<Rightarrow> exn \<Rightarrow> world \<Rightarrow> world \<times> exn option" where
  "catch_block e t x w =
     (let w1 = publishProgress e (taskId t) (TaskError (message x)) w in
      redis_set e (''result:'' @ taskId t) (error_record e t x w1) 3600 w1)"

text \<open>
  \<open>processTask\<close>: the project directory is made before the \<open>try\<close>, so a failure
  there leaves the function at once. The second component is the exception the
  returned promise rejects with, if any.
\<close>

definition processTask :: "env \<Rightarrow> task \<Rightarrow> world \<Rightarrow> world \<times> exn option" where
  "processTask e t w =
     (case fs_mkdir (cwd e) (files w) (posix_join (WORKSPACE_ROOT e) (projectId t)) of
        Inl x \<Rightarrow> (w, Some x)
      | Inr fs1 \<Rightarrow>
          (let w1 = publishProgress e (taskId t) (TaskStarted (AGENT_TYPE e)) (w\<lparr>files := fs1\<rparr>) in
           case try_block e t w1 of
             (w2, None) \<Rightarrow> (w2, None)
           | (w2, Some x) \<Rightarrow> catch_block e t x w2))"

subsection \<open>Reading results, shaping replies, sample runs\<close>

text \<open>\<open>json_field v k\<close> is the property \<open>k\<close> of the object \<open>v\<close>, if it has one.\<close>

fun json_field :: "json \<Rightarrow> string \<Rightarrow> json option" where
  "json_field (JObj ps) k = map_of ps k"
| "json_field JNull k = None"
| "json_field (JBool b) k = None"
| "json_field (JNum n) k = None"
| "json_field (JStr s) k = None"
| "json_field (JArr vs) k = None"

text \<open>
  Shapes of a stored Result. \<open>Result_shape\<close> follows the words of the data
  model: \<open>{taskId, agentType, iterations:int, completed:bool, error?:string,
  timestamp}\<close>. \<open>success_shape\<close> and \<open>error_shape\<close> are the shapes of the two
  object literals that \<open>processTask\<close> stores.
\<close>

definition has_str :: "json \<Rightarrow> string \<Rightarrow> bool" where
  "has_str v k = (case json_field v k of Some (JStr s) \<Rightarrow> True | _ \<Rightarrow> False)"

definition has_num :: "json \<Rightarrow> string \<Rightarrow> bool" where
  "has_num v k = (case json_field v k of Some (JNum n) \<Rightarrow> True | _ \<Rightarrow> False)"

definition has_bool :: "json \<Rightarrow> string \<Rightarrow> bool" where
  "has_bool v k = (case json_field v k of Some (JBool b) \<Rightarrow> True | _ \<Rightarrow> False)"

definition Result_shape :: "json \<Rightarrow> bool" where
  "Result_shape v =
     (has_str v ''taskId'' \<and> has_str v ''agentType'' \<and> has_num v ''iterations''
      \<and> has_bool v ''completed'' \<and> has_num v ''timestamp''
      \<and> (json_field v ''error'' = None \<or> has_str v ''error''))"

definition success_shape :: "json \<Rightarrow> bool" where
  "success_shape v =
     (has_str v ''taskId'' \<and> has_str v ''agentType'' \<and> has_num v ''iterations''
      \<and> has_bool v ''completed'' \<and> has_num v ''timestamp'' \<and> json_field v ''error'' = None)"

definition error_shape :: "json \<Rightarrow> bool" where
  "error_shape v =
     (has_str v ''taskId'' \<and> has_str v ''agentType'' \<and> has_str v ''error''
      \<and> has_num v ''timestamp'' \<and> json_field v ''iterations'' = None
      \<and> json_field v ''completed'' = None)"

text \<open>
  A reply of the provider as a sequence of content blocks: a text block with its
  deltas, or a tool call with the number of its input deltas. \<open>block_events\<close> is
  the part of the stream that belongs to one block, \<open>block_progress\<close> the
  progress events expected for it, and \<open>chunk_texts\<close> picks the texts of the
  \<open>thinking_chunk\<close> events out of a list of progress events.
\<close>

datatype reply_block =
    TextPart "string list"
  | ToolPart tool_use nat

fun block_events :: "reply_block \<Rightarrow> stream_event list" where
  "block_events (TextPart ds) =
     ContentBlockStart BText # map (\<lambda>d. ContentBlockDelta (TextDelta d)) ds
       @ [ContentBlockStop (Some BText)]"
| "block_events (ToolPart tu k) =
     ContentBlockStart (BToolUse tu) # replicate k (ContentBlockDelta OtherDelta)
       @ [ContentBlockStop (Some (BToolUse tu))]"

fun block_progress :: "reply_block \<Rightarrow> progress_event list" where
  "block_progress (TextPart ds) = ThinkingStart # map ThinkingChunk ds"
| "block_progress (ToolPart tu k) = [ToolStart (tu_name tu)]"

fun chunk_texts :: "progress_event list \<Rightarrow> string list" where
  "chunk_texts [] = []"
| "chunk_texts (ThinkingChunk s # evs) = s # chunk_texts evs"
| "chunk_texts (_ # evs) = chunk_texts evs"

text \<open>The texts of the text blocks of an assistant message, in order.\<close>

fun block_texts :: "content_block list \<Rightarrow> string list" where
  "block_texts [] = []"
| "block_texts (TextBlock s # bs) = s # block_texts bs"
| "block_texts (ToolUseBlock tu # bs) = block_texts bs"

text \<open>
  A small installation for the sample runs: the workspace root \<open>/ws\<close> with the
  project \<open>p1\<close> in it, a broker that works, a provider that answers with an
  empty reply, and a shell whose commands do nothing and succeed.
\<close>

definition no_input :: tool_input where
  "no_input = \<lparr>path = None, content = None, old_content = None, new_content = None,
     package = None, dev = None, query = None, command = None, prompt = None,
     filename = None, summary = None, files_modified = None\<rparr>"

definition env0 :: env where
  "env0 = \<lparr>WORKSPACE_ROOT = ''/ws'', AGENT_TYPE = ''generic'', cwd = [''srv''],
            clock = (\<lambda>n. n), redisFails = (\<lambda>n c. None),
            provider = (\<lambda>ms. Inr ([MessageStop], None)),
            execAsync = (\<lambda>c d fs. (fs, Inr ([], [])))\<rparr>"

definition world0 :: world where
  "world0 = \<lparr>files = [([''ws''], Dir), ([''ws'', ''p1''], Dir)], stored = [],
              delivered = [], emitted = [], ops = 0\<rparr>"

definition task0 :: task where
  "task0 = \<lparr>taskId = ''t1'', userId = ''u1'', projectId = ''p1'',
             task_prompt = ''create a hello world file'', task_data = JObj []\<rparr>"

definition ctx0 :: task_context where
  "ctx0 = \<lparr>ctx_taskId = ''t1'', ctx_projectId = ''p1'', ctx_userId = ''u1''\<rparr>"

definition complete_call :: tool_use where
  "complete_call = \<lparr>tu_id = ''tu9'', tu_name = ''task_complete'',
                     tu_input = no_input\<lparr>summary := Some ''done''\<rparr>\<rparr>"

definition search_call :: tool_use where
  "search_call = \<lparr>tu_id = ''tu1'', tu_name = ''web_search'',
                   tu_input = no_input\<lparr>query := Some ''q''\<rparr>\<rparr>"

definition world1 :: world where
  "world1 = world0\<lparr>files := ([''ws'', ''p1'', ''a.txt''], File ''hello'') # files world0\<rparr>"

text \<open>The same installation with a file \<open>/escape.txt\<close> outside the workspace root.\<close>

definition world_outside :: world where
  "world_outside = world0\<lparr>files := ([''escape.txt''], File ''old'') # files world0\<rparr>"

definition env_batch :: env where
  "env_batch = env0\<lparr>provider := (\<lambda>ms.
      Inr ([ContentBlockStop (Some (BToolUse search_call)),
            ContentBlockStop (Some (BToolUse complete_call)),
            ContentBlockStop (Some (BToolUse search_call)),
            MessageStop], None))\<rparr>"

definition env_overloaded :: env where
  "env_overloaded = env0\<lparr>provider := (\<lambda>ms. Inl (ExternalError ''overloaded''))\<rparr>"

definition env_down :: env where
  "env_down = env0\<lparr>redisFails := (\<lambda>n c. Some ''Socket closed unexpectedly'')\<rparr>"

definition env_pub_down :: env where
  "env_pub_down = env0\<lparr>redisFails := (\<lambda>n c.
      if c = PUBLISH ''task-completed'' then Some ''Socket closed unexpectedly'' else None)\<rparr>"

definition env_progress_down :: env where
  "env_progress_down = env0\<lparr>redisFails := (\<lambda>n c.
      case c of
        PUBLISH channel \<Rightarrow>
          (if channel = ''task-completed'' then None else Some ''Socket closed unexpectedly'')
      | SET key \<Rightarrow> None)\<rparr>"

definition env_text :: env where
  "env_text = env0\<lparr>provider := (\<lambda>ms.
      Inr ([ContentBlockStart BText, ContentBlockDelta (TextDelta ''All ''),
            ContentBlockDelta (TextDelta ''done.''), ContentBlockStop (Some BText),
            MessageStop], None))\<rparr>"

text \<open>
  Streams for the sample runs of the stream loop: a text block \<open>x\<close> sent whole;
  then the events of two text blocks \<open>a\<close> and \<open>b\<close>, the first of which is
  closed by a stop event without its block, up to the stop event of the second.
\<close>

definition block_x :: "stream_event list" where
  "block_x = [ContentBlockStart BText, ContentBlockDelta (TextDelta ''x''),
              ContentBlockStop (Some BText)]"

definition blocks_a_b :: "stream_event list" where
  "blocks_a_b = [ContentBlockStart BText, ContentBlockDelta (TextDelta ''a''),
                 ContentBlockStop None,
                 ContentBlockStart BText, ContentBlockDelta (TextDelta ''b'')]"

definition env_cap :: env where
  "env_cap = env0\<lparr>provider := (\<lambda>ms.
      if length ms < 39
      then Inr ([ContentBlockStop (Some (BToolUse search_call)), MessageStop], None)
      else Inr ([MessageStop], None))\<rparr>"

subsection \<open>Auxiliary functions of the proofs\<close>

text \<open>
  \<open>publish_all\<close> calls \<open>publishProgress\<close> on a list of events in order;
  \<open>block_final\<close> is the effect of one finished block on the variables of the
  stream loop; \<open>block_content\<close> is the content block the conversation should
  receive for a block of the reply: for a text block, the concatenation of the
  texts of its \<open>thinking_chunk\<close> events.
\<close>

definition publish_all :: "env \<Rightarrow> string \<Rightarrow> progress_event list \<Rightarrow> world \<Rightarrow> world" where
  "publish_all e tid evs w = foldl (\<lambda>w' ev. publishProgress e tid ev w') w evs"

fun block_final :: "reply_block \<Rightarrow> stream_state \<Rightarrow> stream_state" where
  "block_final (TextPart ds) st =
     st\<lparr>assistantContent := assistantContent st @ [TextBlock (currentThinking st @ concat ds)],
        currentThinking := []\<rparr>"
| "block_final (ToolPart tu k) st =
     st\<lparr>toolUses := toolUses st @ [tu],
        assistantContent := assistantContent st @ [ToolUseBlock tu]\<rparr>"

text \<open>
  \<open>read_events\<close> is the body of the stream loop applied to a run of events, one
  after the other (for events before the \<open>message_stop\<close>).
\<close>

definition read_events :: "env \<Rightarrow> string \<Rightarrow> stream_event list \<Rightarrow> world \<times> stream_state \<Rightarrow> world \<times> stream_state" where
  "read_events e tid evs ws = foldl (\<lambda>ws' ev. on_stream_event e tid ev ws') ws evs"

definition block_content :: "reply_block \<Rightarrow> content_block" where
  "block_content b =
     (case b of
        TextPart ds \<Rightarrow> TextBlock (concat (chunk_texts (block_progress b)))
      | ToolPart tu k \<Rightarrow> ToolUseBlock tu)"

text \<open>
  For the path lemmas: a segment is \<open>skipped\<close> by the normalisation when it is
  empty or \<open>.\<close>, and \<open>plain\<close> when it is an ordinary name; \<open>render\<close> is the
  string that \<open>posix_normalize\<close> builds from the normalised segments.
\<close>

definition skipped :: "string \<Rightarrow> bool" where
  "skipped s = (s = [] \<or> s = ''.'')"

definition plain :: "string \<Rightarrow> bool" where
  "plain s = (s \<noteq> [] \<and> s \<noteq> ''.'' \<and> s \<noteq> ''..'')"

definition render :: "bool \<Rightarrow> string list \<Rightarrow> bool \<Rightarrow> string" where
  "render absolute segs trailing =
     (if segs = [] then
        (if absolute then ''/'' else if trailing then ''./'' else ''.'')
      else (if absolute then ''/'' else []) @ join_segs segs @ (if trailing then ''/'' else []))"

section \<open>Properties\<close>

declare agent_loop.simps [simp del]

subsection \<open>Progress events\<close>

lemma emitted_redis_publish [simp]: "emitted (fst (redis_publish e ch m w)) = emitted w"
  by (simp add: redis_publish_def split: option.splits)

lemma emitted_publishProgress [simp]:
  "emitted (publishProgress e tid ev w) = emitted w @ [(tid, ev)]"
  by (simp add: publishProgress_def)

lemma publish_all_Nil [simp]: "publish_all e tid [] w = w"
  by (simp add: publish_all_def)

lemma publish_all_Cons [simp]:
  "publish_all e tid (ev # evs) w = publish_all e tid evs (publishProgress e tid ev w)"
  by (simp add: publish_all_def)

lemma publish_all_append:
  "publish_all e tid (xs @ ys) w = publish_all e tid ys (publish_all e tid xs w)"
  by (simp add: publish_all_def)

lemma emitted_publish_all:
  "emitted (publish_all e tid evs w) = emitted w @ map (Pair tid) evs"
  by (induction evs arbitrary: w) simp_all

subsection \<open>The completion tool\<close>

lemma executeTool_task_complete:
  "executeTool e ''task_complete'' inp ctx w = (w, task_complete inp)"
  by (simp add: executeTool_def)

lemma success_task_complete: "success (task_complete inp)"
  by (simp add: task_complete_def succeeded_def)

text \<open>
  Claim C10. Whatever the input of \<open>task_complete\<close> (any summary, any list of
  modified files, either of them missing), the handler returns \<open>success = true\<close>
  and \<open>completed = true\<close> with no error and leaves the world alone; so the test
  \<open>toolUse.name === 'task_complete' && result.success\<close> of the tool loop holds for
  every call of the completion tool and sets \<open>completed\<close>, which ends the
  iteration loop.
\<close>

theorem task_complete_always_succeeds:
  "executeTool e ''task_complete'' inp ctx w = (w, task_complete inp)
   \<and> success (task_complete inp)
   \<and> error (task_complete inp) = None
   \<and> map_of (payload (task_complete inp)) ''completed'' = Some (JBool True)
   \<and> snd (snd (run_tool e t \<lparr>tu_id = i, tu_name = ''task_complete'', tu_input = inp\<rparr> (w, rs, c)))
   \<and> agent_loop e t w ms n True = (w, Inr (ms, n, True))"
proof -
  have "agent_loop e t w ms n True = (w, Inr (ms, n, True))"
    by (subst agent_loop.simps) simp
  then show ?thesis
    by (simp add: executeTool_task_complete run_tool_def Let_def)
       (simp add: task_complete_def succeeded_def)
qed

subsection \<open>\<open>edit_file\<close> on content that is not there\<close>

lemma startsWith_prefix: "startsWith s t = prefix t s"
  by (induction s t rule: startsWith.induct) auto

text \<open>\<open>str_includes\<close> is the contiguous-substring test of the library.\<close>

lemma str_includes_sublist: "str_includes s t = sublist t s"
  by (induction s) (auto simp: startsWith_prefix sublist_Cons_right)

text \<open>
  Claim C7. When the target file exists with content \<open>c\<close> and \<open>old_content\<close>
  does not occur in \<open>c\<close>, \<open>edit_file\<close> returns \<open>success = false\<close> with the error
  \<open>Old content not found in <path>. The file may have changed.\<close> and the world
  it returns is the world it was given: nothing is written and nothing is
  published.
\<close>

theorem edit_file_absent_content_no_write:
  assumes "path inp = Some p"
      and "fs_readFile (cwd e) (files w)
             (posix_join (posix_join (WORKSPACE_ROOT e) (ctx_projectId ctx)) p) = Inr c"
      and "old_content inp = Some old"
      and "\<not> str_includes c old"
  shows "executeTool e ''edit_file'' inp ctx w =
           (w, \<lparr>success = False,
                error = Some (''Old content not found in '' @ p @ ''. The file may have changed.''),
                payload = []\<rparr>)"
  using assms
  by (simp add: executeTool_def edit_file_def path_join_def tmpl_def failure_def)

lemma read_a_txt:
  "fs_readFile (cwd env0) (files world1)
     (posix_join (posix_join (WORKSPACE_ROOT env0) (ctx_projectId ctx0)) ''a.txt'') = Inr ''hello''"
  by (simp add: env0_def world0_def world1_def ctx0_def posix_join_def posix_normalize_def
        isAbsolute_def trailingSeparator_def normalizeString_def normStep_def
        fs_readFile_def os_segs_def fs_lookup_def)

theorem edit_file_absent_content_no_write_witness:
  "executeTool env0 ''edit_file''
     (no_input\<lparr>path := Some ''a.txt'', old_content := Some ''zzz'', new_content := Some ''y''\<rparr>)
     ctx0 world1
   = (world1, \<lparr>success = False,
               error = Some ''Old content not found in a.txt. The file may have changed.'',
               payload = []\<rparr>)"
  using edit_file_absent_content_no_write
          [of "no_input\<lparr>path := Some ''a.txt'', old_content := Some ''zzz'', new_content := Some ''y''\<rparr>"
              "''a.txt''" env0 world1 ctx0 "''hello''" "''zzz''", OF _ read_a_txt]
  by (simp add: no_input_def)

subsection \<open>One iteration of the loop\<close>

lemma emitted_create_file: "emitted (fst (create_file e pid root inp w)) = emitted w"
  unfolding create_file_def
  by (auto split: sum.splits option.splits prod.splits simp: redis_publish_def)

lemma emitted_edit_file: "emitted (fst (edit_file e pid root inp w)) = emitted w"
  unfolding edit_file_def
  by (auto split: sum.splits option.splits prod.splits simp: redis_publish_def Let_def)

lemma emitted_executeTool [simp]: "emitted (fst (executeTool e n inp ctx w)) = emitted w"
  by (auto simp: executeTool_def Let_def emitted_create_file emitted_edit_file read_file_def
        list_files_def install_package_def execute_command_def
      split: sum.splits option.splits prod.splits)

lemma run_tool_emitted_grows:
  "\<exists>new. emitted (fst (run_tool e t tu acc)) = emitted (fst acc) @ new"
  by (cases acc) (simp add: run_tool_def Let_def)

lemma run_tools_emitted_grows:
  "\<exists>new. emitted (fst (run_tools e t tus acc)) = emitted (fst acc) @ new"
proof (induction tus arbitrary: acc)
  case Nil
  show ?case by simp
next
  case (Cons tu tus)
  from Cons.IH [of "run_tool e t tu acc"] run_tool_emitted_grows [of e t tu acc]
  show ?case by auto
qed

lemma run_tool_keeps_completed:
  "snd (snd (run_tool e t tu (w, rs, True)))"
  by (simp add: run_tool_def Let_def)

lemma run_tools_keeps_completed:
  "snd (snd acc) \<Longrightarrow> snd (snd (run_tools e t tus acc))"
proof (induction tus arbitrary: acc)
  case Nil
  then show ?case by simp
next
  case (Cons tu tus)
  obtain w rs c where acc: "acc = (w, rs, c)" by (cases acc)
  with Cons.prems have "snd (snd (run_tool e t tu acc))"
    by (simp add: run_tool_keeps_completed)
  then show ?case using Cons.IH by simp
qed

lemma run_tool_task_complete:
  assumes "tu_name tu = ''task_complete''"
  shows "snd (snd (run_tool e t tu acc))"
    and "(taskId t, TaskCompleted (summary (tu_input tu)) (files_modified (tu_input tu)) None)
           \<in> set (emitted (fst (run_tool e t tu acc)))"
  using assms
  by (cases acc; simp add: run_tool_def Let_def executeTool_task_complete success_task_complete)+

lemma run_tools_task_complete:
  assumes "tu \<in> set tus" and "tu_name tu = ''task_complete''"
  shows "snd (snd (run_tools e t tus acc)) \<and>
         (taskId t, TaskCompleted (summary (tu_input tu)) (files_modified (tu_input tu)) None)
           \<in> set (emitted (fst (run_tools e t tus acc)))"
  using assms(1)
proof (induction tus arbitrary: acc)
  case Nil
  then show ?case by simp
next
  case (Cons a tus)
  show ?case
  proof (cases "a = tu")
    case True
    have c: "snd (snd (run_tool e t tu acc))"
      and m: "(taskId t, TaskCompleted (summary (tu_input tu)) (files_modified (tu_input tu)) None)
           \<in> set (emitted (fst (run_tool e t tu acc)))"
      using run_tool_task_complete [OF assms(2)] by auto
    obtain new where "emitted (fst (run_tools e t tus (run_tool e t tu acc)))
                        = emitted (fst (run_tool e t tu acc)) @ new"
      using run_tools_emitted_grows by blast
    with m c True show ?thesis
      by (simp add: run_tools_keeps_completed)
  next
    case False
    with Cons.prems have "tu \<in> set tus" by simp
    from Cons.IH [OF this] show ?thesis by simp
  qed
qed

lemma agent_loop_done:
  "agent_loop e t w messages iterations True = (w, Inr (messages, iterations, True))"
  by (subst agent_loop.simps) simp

lemma agent_loop_step:
  assumes "iterations < maxIterations"
      and "iteration e t (Suc iterations) w messages False = (w', Inr (messages', True))"
  shows "agent_loop e t w messages iterations False = (w', Inr (messages', Suc iterations, True))"
  using assms by (subst agent_loop.simps) (simp add: agent_loop_done)

text \<open>
  Claim C5. In an iteration whose finalized reply holds no tool call (the stream
  was read to its end and \<open>toolUses\<close> is empty), the driver calls
  \<open>publishProgress\<close> with a \<open>task_completed\<close> event, which is the last
  event of the iteration, and the loop returns at once: \<open>completed\<close> is true and
  the iteration counter is the number of this iteration.
\<close>

theorem no_tool_reply_completes:
  assumes "iterations < maxIterations"
      and "provider e messages = Inr reply"
      and "process_stream e (taskId t) (fst reply) (snd reply)
             (publishProgress e (taskId t) (IterationStart (Suc iterations)) w, stream_init)
           = (w2, Inr st)"
      and "toolUses st = []"
  shows "agent_loop e t w messages iterations False =
           (publishProgress e (taskId t)
              (TaskCompleted None None (Some ''Agent completed thinking, no more actions needed'')) w2,
            Inr (messages @ [Assistant (assistantContent st)], Suc iterations, True))
       \<and> emitted (fst (agent_loop e t w messages iterations False))
           = emitted w2
               @ [(taskId t,
                   TaskCompleted None None (Some ''Agent completed thinking, no more actions needed''))]"
proof -
  have "agent_loop e t w messages iterations False =
           (publishProgress e (taskId t)
              (TaskCompleted None None (Some ''Agent completed thinking, no more actions needed'')) w2,
            Inr (messages @ [Assistant (assistantContent st)], Suc iterations, True))"
    using assms by (intro agent_loop_step) (simp_all add: iteration_def Let_def)
  then show ?thesis by simp
qed

lemma text_reply_stream:
  "process_stream env_text (taskId task0) (fst the_reply) (snd the_reply)
     (publishProgress env_text (taskId task0) (IterationStart (Suc 0)) world0, stream_init)
   = (publish_all env_text ''t1''
        [IterationStart 1, ThinkingStart, ThinkingChunk ''All '', ThinkingChunk ''done.''] world0,
      Inr \<lparr>currentThinking = [], toolUses = [], assistantContent = [TextBlock ''All done.'']\<rparr>)"
  if "the_reply = ([ContentBlockStart BText, ContentBlockDelta (TextDelta ''All ''),
                    ContentBlockDelta (TextDelta ''done.''), ContentBlockStop (Some BText),
                    MessageStop], None)"
  using that by (simp add: on_stream_event_def stream_init_def task0_def)

theorem no_tool_reply_completes_witness:
  "snd (agent_loop env_text task0 world0 [UserPrompt ''hello''] 0 False)
     = Inr ([UserPrompt ''hello'', Assistant [TextBlock ''All done.'']], 1, True)
   \<and> emitted (fst (agent_loop env_text task0 world0 [UserPrompt ''hello''] 0 False))
       = [(''t1'', IterationStart 1), (''t1'', ThinkingStart),
          (''t1'', ThinkingChunk ''All ''), (''t1'', ThinkingChunk ''done.''),
          (''t1'', TaskCompleted None None (Some ''Agent completed thinking, no more actions needed''))]"
  using no_tool_reply_completes
          [of 0 env_text "[UserPrompt ''hello'']" _ task0 world0 _ _,
           OF _ _ text_reply_stream [OF refl]]
  by (simp add: maxIterations_def env_text_def env0_def task0_def world0_def emitted_publish_all)

text \<open>
  Claim C4. In an iteration whose tool batch holds a \<open>task_complete\<close> call,
  wherever it stands among the other calls of the batch, the call reports success,
  its \<open>task_completed\<close> event is published, and the loop returns after this very
  iteration with \<open>completed\<close> true: the counter it returns is the number of this
  iteration, so no further iteration runs.
\<close>

theorem task_complete_in_batch_ends_loop:
  assumes "iterations < maxIterations"
      and "provider e messages = Inr reply"
      and "process_stream e (taskId t) (fst reply) (snd reply)
             (publishProgress e (taskId t) (IterationStart (Suc iterations)) w, stream_init)
           = (w2, Inr st)"
      and "toolUse \<in> set (toolUses st)"
      and "tu_name toolUse = ''task_complete''"
  shows "\<exists>w' messages'.
           agent_loop e t w messages iterations False
             = (w', Inr (messages', Suc iterations, True)) \<and>
           (taskId t, TaskCompleted (summary (tu_input toolUse)) (files_modified (tu_input toolUse)) None)
             \<in> set (emitted w')"
proof -
  obtain w3 rs c where rt: "run_tools e t (toolUses st) (w2, [], False) = (w3, rs, c)"
    by (cases "run_tools e t (toolUses st) (w2, [], False)")
  from run_tools_task_complete [OF assms(4,5), of e t "(w2, [], False)"] rt
  have c: "c" and m: "(taskId t, TaskCompleted (summary (tu_input toolUse)) (files_modified (tu_input toolUse)) None)
             \<in> set (emitted w3)"
    by simp_all
  from assms(4) have ne: "toolUses st \<noteq> []" by auto
  have "iteration e t (Suc iterations) w messages False
          = (w3, Inr (messages @ [Assistant (assistantContent st)] @ [ToolResults rs], True))"
    using assms(2,3) ne rt c by (simp add: iteration_def Let_def)
  from agent_loop_step [OF assms(1) this] m show ?thesis by blast
qed

lemma batch_stream:
  "process_stream env_batch (taskId task0) (fst (the_reply)) (snd (the_reply))
     (publishProgress env_batch (taskId task0) (IterationStart (Suc 0)) world0, stream_init)
   = (publishProgress env_batch ''t1'' (IterationStart 1) world0,
      Inr \<lparr>currentThinking = [], toolUses = [search_call, complete_call, search_call],
           assistantContent = [ToolUseBlock search_call, ToolUseBlock complete_call,
                               ToolUseBlock search_call]\<rparr>)"
  if "the_reply = ([ContentBlockStop (Some (BToolUse search_call)),
                    ContentBlockStop (Some (BToolUse complete_call)),
                    ContentBlockStop (Some (BToolUse search_call)),
                    MessageStop], None)"
  using that by (simp add: on_stream_event_def stream_init_def task0_def)

theorem task_complete_in_batch_ends_loop_witness:
  "\<exists>w' messages'.
     agent_loop env_batch task0 world0 [UserPrompt ''hello''] 0 False
       = (w', Inr (messages', 1, True)) \<and>
     (''t1'', TaskCompleted (Some ''done'') None None) \<in> set (emitted w')"
  using task_complete_in_batch_ends_loop
          [of 0 env_batch "[UserPrompt ''hello'']" _ task0 world0 _ _ complete_call,
           OF _ _ batch_stream [OF refl]]
  by (simp add: maxIterations_def env_batch_def env0_def task0_def complete_call_def no_input_def)

subsection \<open>The stream of one reply\<close>

lemma chunk_texts_chunks [simp]: "chunk_texts (map ThinkingChunk ds) = ds"
  by (induction ds) simp_all

lemma process_text_deltas:
  "process_stream e tid (map (\<lambda>d. ContentBlockDelta (TextDelta d)) ds @ rest) tail (w, st)
     = process_stream e tid rest tail
         (publish_all e tid (map ThinkingChunk ds) w,
          st\<lparr>currentThinking := currentThinking st @ concat ds\<rparr>)"
proof (induction ds arbitrary: w st)
  case Nil
  show ?case by simp
next
  case (Cons d ds)
  show ?case
    by (simp add: on_stream_event_def Cons.IH)
qed

lemma process_other_deltas:
  "process_stream e tid (replicate k (ContentBlockDelta OtherDelta) @ rest) tail (w, st)
     = process_stream e tid rest tail (w, st)"
  by (induction k) (simp_all add: on_stream_event_def)

lemma process_block:
  "process_stream e tid (block_events b @ rest) tail (w, st)
     = process_stream e tid rest tail (publish_all e tid (block_progress b) w, block_final b st)"
proof (cases b)
  case (TextPart ds)
  have "process_stream e tid (block_events b @ rest) tail (w, st)
          = process_stream e tid
              (map (\<lambda>d. ContentBlockDelta (TextDelta d)) ds @ ContentBlockStop (Some BText) # rest)
              tail (publishProgress e tid ThinkingStart w, st)"
    by (simp add: TextPart on_stream_event_def)
  also have "\<dots> = process_stream e tid (ContentBlockStop (Some BText) # rest) tail
                     (publish_all e tid (map ThinkingChunk ds) (publishProgress e tid ThinkingStart w),
                      st\<lparr>currentThinking := currentThinking st @ concat ds\<rparr>)"
    by (rule process_text_deltas)
  also have "\<dots> = process_stream e tid rest tail
                     (publish_all e tid (block_progress b) w, block_final b st)"
    by (simp add: TextPart on_stream_event_def)
  finally show ?thesis .
next
  case (ToolPart tu k)
  have "process_stream e tid (block_events b @ rest) tail (w, st)
          = process_stream e tid
              (replicate k (ContentBlockDelta OtherDelta) @ ContentBlockStop (Some (BToolUse tu)) # rest)
              tail (publishProgress e tid (ToolStart (tu_name tu)) w, st)"
    by (simp add: ToolPart on_stream_event_def)
  also have "\<dots> = process_stream e tid (ContentBlockStop (Some (BToolUse tu)) # rest) tail
                     (publishProgress e tid (ToolStart (tu_name tu)) w, st)"
    by (rule process_other_deltas)
  also have "\<dots> = process_stream e tid rest tail
                     (publish_all e tid (block_progress b) w, block_final b st)"
    by (simp add: ToolPart on_stream_event_def)
  finally show ?thesis .
qed

lemma process_blocks:
  "currentThinking st = [] \<Longrightarrow>
   \<exists>st'. process_stream e tid (concat (map block_events bs) @ rest) tail (w, st)
           = process_stream e tid rest tail
               (publish_all e tid (concat (map block_progress bs)) w, st')
         \<and> currentThinking st' = []
         \<and> assistantContent st' = assistantContent st @ map block_content bs"
proof (induction bs arbitrary: w st)
  case Nil
  then show ?case by (intro exI [of _ st]) simp
next
  case (Cons b bs)
  have ct: "currentThinking (block_final b st) = []"
    using Cons.prems by (cases b) simp_all
  have ac: "assistantContent (block_final b st) = assistantContent st @ [block_content b]"
    using Cons.prems by (cases b) (simp_all add: block_content_def)
  from Cons.IH [OF ct, of "publish_all e tid (block_progress b) w"]
  obtain st' where
    "process_stream e tid (concat (map block_events bs) @ rest) tail
        (publish_all e tid (block_progress b) w, block_final b st)
       = process_stream e tid rest tail
           (publish_all e tid (concat (map block_progress bs))
              (publish_all e tid (block_progress b) w), st')"
    and "currentThinking st' = []"
    and "assistantContent st' = assistantContent (block_final b st) @ map block_content bs"
    by blast
  then show ?case
    by (intro exI [of _ st']) (simp add: process_block ac publish_all_append)
qed

text \<open>
  A reply sent block by block, each block as its start event, its deltas and a stop
  event that carries the block, and closed by \<open>message_stop\<close>. The progress
  events published while the stream is read are, block after block, those of
  \<open>block_progress\<close> (for a text block: \<open>thinking_start\<close>, then one
  \<open>thinking_chunk\<close> for each delta, in order), and the content appended to the
  conversation holds for every text block exactly the concatenation of the texts of
  the \<open>thinking_chunk\<close> events of that block (\<open>block_content\<close>).
\<close>

lemma thinking_chunks_reconstruct_text:
  "\<exists>w' st.
     process_stream e tid (concat (map block_events bs) @ MessageStop # rest) tail (w, stream_init)
       = (w', Inr st)
     \<and> emitted w' = emitted w @ map (Pair tid) (concat (map block_progress bs))
     \<and> assistantContent st = map block_content bs"
proof -
  have "currentThinking stream_init = []" by (simp add: stream_init_def)
  from process_blocks [OF this, of e tid bs "MessageStop # rest" tail w]
  show ?thesis
    by (auto simp: stream_init_def emitted_publish_all)
qed

text \<open>
  For a single text block the text that reaches the conversation is the
  concatenation of its deltas, and the chunk events carry these deltas one by one.
\<close>

lemma text_block_content:
  "block_content (TextPart ds) = TextBlock (concat ds)
   \<and> chunk_texts (block_progress (TextPart ds)) = ds"
  by (simp add: block_content_def)

lemma block_texts_append [simp]: "block_texts (xs @ ys) = block_texts xs @ block_texts ys"
  by (induction xs rule: block_texts.induct) simp_all

lemma chunk_texts_append [simp]: "chunk_texts (xs @ ys) = chunk_texts xs @ chunk_texts ys"
  by (induction xs rule: chunk_texts.induct) simp_all

text \<open>
  Whatever the stream: the texts appended to the conversation, followed by the text
  not yet appended, are the texts of the chunk events in order.
\<close>

lemma on_stream_event_text:
  assumes "on_stream_event e tid ev (w, st) = (w', st')"
  shows "\<exists>new. emitted w' = emitted w @ new \<and>
           concat (block_texts (assistantContent st')) @ currentThinking st'
             = concat (block_texts (assistantContent st)) @ currentThinking st
                 @ concat (chunk_texts (map snd new))"
proof (cases ev)
  case (ContentBlockStart b)
  with assms show ?thesis
    by (cases b) (auto simp: on_stream_event_def)
next
  case (ContentBlockDelta d)
  with assms show ?thesis
    by (cases d) (auto simp: on_stream_event_def)
next
  case (ContentBlockStop cb)
  show ?thesis
  proof (cases cb)
    case None
    with assms ContentBlockStop show ?thesis by (auto simp: on_stream_event_def)
  next
    case (Some b)
    with assms ContentBlockStop show ?thesis
      by (cases b) (auto simp: on_stream_event_def)
  qed
next
  case MessageStop
  with assms show ?thesis by (auto simp: on_stream_event_def)
next
  case OtherEvent
  with assms show ?thesis by (auto simp: on_stream_event_def)
qed

lemma process_stream_text:
  assumes "process_stream e tid evs tail (w, st) = (w', Inr st')"
  shows "\<exists>new. emitted w' = emitted w @ new \<and>
           concat (block_texts (assistantContent st')) @ currentThinking st'
             = concat (block_texts (assistantContent st)) @ currentThinking st
                 @ concat (chunk_texts (map snd new))"
  using assms
proof (induction evs arbitrary: w st)
  case Nil
  then show ?case by (auto split: option.splits)
next
  case (Cons ev evs)
  show ?case
  proof (cases "ev = MessageStop")
    case True
    with Cons.prems show ?thesis by auto
  next
    case False
    obtain w1 st1 where step: "on_stream_event e tid ev (w, st) = (w1, st1)"
      by (cases "on_stream_event e tid ev (w, st)")
    with Cons.prems False have "process_stream e tid evs tail (w1, st1) = (w', Inr st')"
      by simp
    from Cons.IH [OF this] obtain new2 where
      e2: "emitted w' = emitted w1 @ new2"
      and t2: "concat (block_texts (assistantContent st')) @ currentThinking st'
             = concat (block_texts (assistantContent st1)) @ currentThinking st1
                 @ concat (chunk_texts (map snd new2))"
      by blast
    from on_stream_event_text [OF step] obtain new1 where
      e1: "emitted w1 = emitted w @ new1"
      and t1: "concat (block_texts (assistantContent st1)) @ currentThinking st1
             = concat (block_texts (assistantContent st)) @ currentThinking st
                 @ concat (chunk_texts (map snd new1))"
      by blast
    have "concat (block_texts (assistantContent st')) @ currentThinking st'
            = (concat (block_texts (assistantContent st1)) @ currentThinking st1)
                 @ concat (chunk_texts (map snd new2))"
      using t2 by simp
    also have "\<dots> = concat (block_texts (assistantContent st)) @ currentThinking st
                 @ concat (chunk_texts (map snd (new1 @ new2)))"
      by (simp only: t1) simp
    finally show ?thesis
      using e1 e2 by (intro exI [of _ "new1 @ new2"]) simp
  qed
qed

text \<open>
  The stream loop reads the events before \<open>message_stop\<close> one after the other,
  and it only ever appends to the content of the reply.
\<close>

lemma read_events_Nil [simp]: "read_events e tid [] ws = ws"
  by (simp add: read_events_def)

lemma read_events_Cons [simp]:
  "read_events e tid (ev # evs) ws = read_events e tid evs (on_stream_event e tid ev ws)"
  by (simp add: read_events_def)

lemma read_events_append:
  "read_events e tid (xs @ ys) ws = read_events e tid ys (read_events e tid xs ws)"
  by (simp add: read_events_def)

lemma process_stream_read_events:
  "MessageStop \<notin> set evs \<Longrightarrow>
   process_stream e tid (evs @ rest) tail ws = process_stream e tid rest tail (read_events e tid evs ws)"
  by (induction evs arbitrary: ws) auto

lemma process_stream_prefix:
  "MessageStop \<notin> set evs \<Longrightarrow>
   process_stream e tid evs None ws
     = (fst (read_events e tid evs ws), Inr (snd (read_events e tid evs ws)))"
  using process_stream_read_events [of evs e tid "[]" None ws] by simp

lemma on_stream_event_appends:
  "\<exists>more. assistantContent (snd (on_stream_event e tid ev (w, st))) = assistantContent st @ more"
  by (auto simp: on_stream_event_def
        split: stream_event.splits stream_block.splits stream_delta.splits option.splits)

lemma process_stream_appends:
  "process_stream e tid evs tail (w, st) = (w', Inr st') \<Longrightarrow>
   \<exists>more. assistantContent st' = assistantContent st @ more"
proof (induction evs arbitrary: w st)
  case Nil
  then show ?case by (auto split: option.splits)
next
  case (Cons ev evs)
  show ?case
  proof (cases "ev = MessageStop")
    case True
    with Cons.prems show ?thesis by auto
  next
    case False
    obtain w1 st1 where step: "on_stream_event e tid ev (w, st) = (w1, st1)"
      by (cases "on_stream_event e tid ev (w, st)")
    with Cons.prems False have "process_stream e tid evs tail (w1, st1) = (w', Inr st')"
      by simp
    from Cons.IH [OF this] obtain m2 where "assistantContent st' = assistantContent st1 @ m2"
      by blast
    moreover from on_stream_event_appends [of e tid ev w st] step
    obtain m1 where "assistantContent st1 = assistantContent st @ m1"
      by auto
    ultimately show ?thesis by simp
  qed
qed

text \<open>
  An event other than the stop of a text block: the text not yet appended grows by
  the chunks published, and no text block is appended.
\<close>

lemma on_stream_event_between:
  assumes "ev \<noteq> ContentBlockStop (Some BText)"
  shows "\<exists>new bs.
           emitted (fst (on_stream_event e tid ev (w, st))) = emitted w @ new
         \<and> currentThinking (snd (on_stream_event e tid ev (w, st)))
             = currentThinking st @ concat (chunk_texts (map snd new))
         \<and> assistantContent (snd (on_stream_event e tid ev (w, st))) = assistantContent st @ bs
         \<and> block_texts bs = []"
proof (cases ev)
  case (ContentBlockStart b)
  then show ?thesis by (cases b) (simp_all add: on_stream_event_def)
next
  case (ContentBlockDelta d)
  then show ?thesis by (cases d) (simp_all add: on_stream_event_def)
next
  case (ContentBlockStop cb)
  show ?thesis
  proof (cases cb)
    case None
    with ContentBlockStop show ?thesis by (simp add: on_stream_event_def)
  next
    case (Some b)
    with ContentBlockStop assms show ?thesis
      by (cases b) (simp_all add: on_stream_event_def)
  qed
next
  case MessageStop
  then show ?thesis by (simp add: on_stream_event_def)
next
  case OtherEvent
  then show ?thesis by (simp add: on_stream_event_def)
qed

lemma read_events_between:
  assumes "ContentBlockStop (Some BText) \<notin> set evs"
  shows "\<exists>new bs.
           emitted (fst (read_events e tid evs (w, st))) = emitted w @ new
         \<and> currentThinking (snd (read_events e tid evs (w, st)))
             = currentThinking st @ concat (chunk_texts (map snd new))
         \<and> assistantContent (snd (read_events e tid evs (w, st))) = assistantContent st @ bs
         \<and> block_texts bs = []"
  using assms
proof (induction evs arbitrary: w st)
  case Nil
  show ?case by simp
next
  case (Cons ev evs)
  obtain w1 st1 where step: "on_stream_event e tid ev (w, st) = (w1, st1)"
    by (cases "on_stream_event e tid ev (w, st)")
  from Cons.prems have "ev \<noteq> ContentBlockStop (Some BText)" by auto
  from on_stream_event_between [OF this, of e tid w st] step
  obtain new1 bs1 where e1: "emitted w1 = emitted w @ new1"
    and c1: "currentThinking st1 = currentThinking st @ concat (chunk_texts (map snd new1))"
    and a1: "assistantContent st1 = assistantContent st @ bs1"
    and t1: "block_texts bs1 = []"
    by auto
  from Cons.prems have "ContentBlockStop (Some BText) \<notin> set evs" by simp
  from Cons.IH [OF this, of w1 st1]
  obtain new2 bs2 where e2: "emitted (fst (read_events e tid evs (w1, st1))) = emitted w1 @ new2"
    and c2: "currentThinking (snd (read_events e tid evs (w1, st1)))
               = currentThinking st1 @ concat (chunk_texts (map snd new2))"
    and a2: "assistantContent (snd (read_events e tid evs (w1, st1))) = assistantContent st1 @ bs2"
    and t2: "block_texts bs2 = []"
    by blast
  show ?case
    using step e1 c1 a1 t1 e2 c2 a2 t2
    by (intro exI [of _ "new1 @ new2"] exI [of _ "bs1 @ bs2"]) simp
qed

text \<open>After the stop of a text block, and at the start, no text waits to be appended.\<close>

lemma nothing_pending_after_text_stop:
  assumes "pre = [] \<or> last pre = ContentBlockStop (Some BText)"
  shows "currentThinking (snd (read_events e tid pre (w, stream_init))) = []"
proof (cases "pre = []")
  case True
  then show ?thesis by (simp add: stream_init_def)
next
  case False
  with assms have "pre = butlast pre @ [ContentBlockStop (Some BText)]"
    using append_butlast_last_id [of pre] by simp
  then obtain xs where "pre = xs @ [ContentBlockStop (Some BText)]" ..
  then show ?thesis
    by (simp add: read_events_append on_stream_event_def split_beta)
qed

text \<open>
  The events before a stop event split in one way into the events up to the last
  text stop event that carries its block, and the events since.
\<close>

lemma events_since_last_text_stop:
  "\<exists>pre mid. evs = pre @ mid \<and> ContentBlockStop (Some BText) \<notin> set mid
      \<and> (pre = [] \<or> last pre = ContentBlockStop (Some BText))"
proof (induction evs rule: rev_induct)
  case Nil
  show ?case by simp
next
  case (snoc ev evs)
  show ?case
  proof (cases "ev = ContentBlockStop (Some BText)")
    case True
    then show ?thesis by (intro exI [of _ "evs @ [ev]"] exI [of _ "[]"]) simp
  next
    case False
    from snoc.IH obtain pre mid where "evs = pre @ mid"
      and "ContentBlockStop (Some BText) \<notin> set mid"
      and "pre = [] \<or> last pre = ContentBlockStop (Some BText)"
      by blast
    with False show ?thesis by (intro exI [of _ pre] exI [of _ "mid @ [ev]"]) simp
  qed
qed

text \<open>
  Claim C9, as the code has it. A text block is appended to the reply only at a
  stop event that carries the block, and what is appended there is the text
  gathered since the last such stop event. So let a reply be read to its end, and
  take in it a text stop event that carries its block, the events \<open>mid\<close> before
  it and the events \<open>pre\<close> before those, where \<open>pre\<close> is empty or ends with the
  text stop event before (one that carries its block) and \<open>mid\<close> holds no such
  stop event. Then the content appended to the conversation holds, after what
  \<open>pre\<close> left there and after blocks that are not text blocks, a text block
  whose text is the concatenation, in order, of the texts of the
  \<open>thinking_chunk\<close> events published while \<open>mid\<close> was read. When \<open>mid\<close> is
  one text block (its start event and its deltas), these are the chunk events of
  that block. Every text stop event that carries its block comes with such
  \<open>pre\<close> and \<open>mid\<close> (\<open>events_since_last_text_stop\<close>).
\<close>

theorem appended_text_is_chunks_since_last_text_stop:
  assumes "MessageStop \<notin> set (pre @ mid)"
      and "ContentBlockStop (Some BText) \<notin> set mid"
      and "pre = [] \<or> last pre = ContentBlockStop (Some BText)"
      and "process_stream e tid (pre @ mid @ ContentBlockStop (Some BText) # rest) tail (w, stream_init)
             = (w', Inr st')"
  shows "\<exists>st1 new bs more.
           snd (process_stream e tid pre None (w, stream_init)) = Inr st1
         \<and> emitted (fst (process_stream e tid (pre @ mid) None (w, stream_init)))
             = emitted (fst (process_stream e tid pre None (w, stream_init))) @ new
         \<and> assistantContent st'
             = assistantContent st1 @ bs @ TextBlock (concat (chunk_texts (map snd new))) # more
         \<and> block_texts bs = []"
proof -
  obtain w1 st1 where r1: "read_events e tid pre (w, stream_init) = (w1, st1)"
    by (cases "read_events e tid pre (w, stream_init)")
  obtain w2 st2 where r2: "read_events e tid mid (w1, st1) = (w2, st2)"
    by (cases "read_events e tid mid (w1, st1)")
  from assms(1) have np: "MessageStop \<notin> set pre" and nm: "MessageStop \<notin> set (pre @ mid)"
    by simp_all
  have p1: "process_stream e tid pre None (w, stream_init) = (w1, Inr st1)"
    using process_stream_prefix [OF np, of e tid "(w, stream_init)"] r1 by simp
  have p2: "process_stream e tid (pre @ mid) None (w, stream_init) = (w2, Inr st2)"
    using process_stream_prefix [OF nm, of e tid "(w, stream_init)"] r1 r2
    by (simp add: read_events_append)
  from nothing_pending_after_text_stop [OF assms(3), of e tid w] r1
  have c1: "currentThinking st1 = []" by simp
  from read_events_between [OF assms(2), of e tid w1 st1] r2 c1
  obtain new bs where e2: "emitted w2 = emitted w1 @ new"
    and c2: "currentThinking st2 = concat (chunk_texts (map snd new))"
    and a2: "assistantContent st2 = assistantContent st1 @ bs"
    and t2: "block_texts bs = []"
    by auto
  define st3 where "st3 = st2\<lparr>assistantContent := assistantContent st2 @ [TextBlock (currentThinking st2)],
                              currentThinking := []\<rparr>"
  have "process_stream e tid ((pre @ mid) @ ContentBlockStop (Some BText) # rest) tail (w, stream_init)
          = process_stream e tid (ContentBlockStop (Some BText) # rest) tail (w2, st2)"
    using process_stream_read_events [OF nm, of e tid _ tail "(w, stream_init)"] r1 r2
    by (simp add: read_events_append)
  also have "\<dots> = process_stream e tid rest tail (w2, st3)"
    by (simp add: on_stream_event_def st3_def)
  finally have "process_stream e tid rest tail (w2, st3) = (w', Inr st')"
    using assms(4) by simp
  from process_stream_appends [OF this]
  obtain more where "assistantContent st' = assistantContent st3 @ more" by blast
  with a2 c2 have "assistantContent st'
      = assistantContent st1 @ bs @ TextBlock (concat (chunk_texts (map snd new))) # more"
    by (simp add: st3_def)
  with p1 p2 e2 t2 show ?thesis
    by (intro exI [of _ st1] exI [of _ new] exI [of _ bs] exI [of _ more]) simp
qed

lemma stream_x_a_b:
  "process_stream env0 ''t1'' the_stream None (world0, stream_init)
     = (publish_all env0 ''t1''
          [ThinkingStart, ThinkingChunk ''x'', ThinkingStart, ThinkingChunk ''a'',
           ThinkingStart, ThinkingChunk ''b''] world0,
        Inr \<lparr>currentThinking = [], toolUses = [],
             assistantContent = [TextBlock ''x'', TextBlock ''ab'']\<rparr>)"
  if "the_stream = block_x @ blocks_a_b @ ContentBlockStop (Some BText) # [MessageStop]"
  using that by (simp add: block_x_def blocks_a_b_def on_stream_event_def stream_init_def)

theorem appended_text_is_chunks_since_last_text_stop_witness:
  "map snd (emitted (fst (process_stream env0 ''t1'' block_x None (world0, stream_init))))
     = [ThinkingStart, ThinkingChunk ''x'']
   \<and> map snd (emitted (fst (process_stream env0 ''t1'' (block_x @ blocks_a_b) None (world0, stream_init))))
     = [ThinkingStart, ThinkingChunk ''x'', ThinkingStart, ThinkingChunk ''a'',
        ThinkingStart, ThinkingChunk ''b'']
   \<and> (\<exists>new bs more.
         emitted (fst (process_stream env0 ''t1'' (block_x @ blocks_a_b) None (world0, stream_init)))
           = emitted (fst (process_stream env0 ''t1'' block_x None (world0, stream_init))) @ new
         \<and> [TextBlock ''x'', TextBlock ''ab'']
             = [TextBlock ''x''] @ bs @ TextBlock (concat (chunk_texts (map snd new))) # more
         \<and> block_texts bs = [])"
proof -
  have e1: "map snd (emitted (fst (process_stream env0 ''t1'' block_x None (world0, stream_init))))
              = [ThinkingStart, ThinkingChunk ''x'']"
    by (simp add: block_x_def on_stream_event_def world0_def)
  have e2: "map snd (emitted (fst (process_stream env0 ''t1'' (block_x @ blocks_a_b) None (world0, stream_init))))
              = [ThinkingStart, ThinkingChunk ''x'', ThinkingStart, ThinkingChunk ''a'',
                 ThinkingStart, ThinkingChunk ''b'']"
    by (simp add: block_x_def blocks_a_b_def on_stream_event_def world0_def)
  have a: "MessageStop \<notin> set (block_x @ blocks_a_b)"
    and b: "ContentBlockStop (Some BText) \<notin> set blocks_a_b"
    and c: "block_x = [] \<or> last block_x = ContentBlockStop (Some BText)"
    by (simp_all add: block_x_def blocks_a_b_def)
  have p: "snd (process_stream env0 ''t1'' block_x None (world0, stream_init))
             = Inr \<lparr>currentThinking = [], toolUses = [], assistantContent = [TextBlock ''x'']\<rparr>"
    by (simp add: block_x_def on_stream_event_def stream_init_def)
  from appended_text_is_chunks_since_last_text_stop [OF a b c stream_x_a_b [OF refl]] p
  have "\<exists>new bs more.
         emitted (fst (process_stream env0 ''t1'' (block_x @ blocks_a_b) None (world0, stream_init)))
           = emitted (fst (process_stream env0 ''t1'' block_x None (world0, stream_init))) @ new
         \<and> [TextBlock ''x'', TextBlock ''ab'']
             = [TextBlock ''x''] @ bs @ TextBlock (concat (chunk_texts (map snd new))) # more
         \<and> block_texts bs = []"
    by auto
  with e1 e2 show ?thesis by (intro conjI)
qed

text \<open>
  Claim C9 as stated fails for a text block whose stop event carries no block (the
  code reads the block of a stop event with \<open>?.\<close>). Two text blocks \<open>a\<close> and
  \<open>b\<close>, the first closed by such a stop event: the chunk events are \<open>a\<close> and
  \<open>b\<close>, each after its own \<open>thinking_start\<close>, and the conversation receives
  the single text block \<open>ab\<close>; the text appended for the second block is not
  the concatenation of its chunks, and nothing is appended for the first. A text
  block alone in its reply and closed that way is never appended: its text stays
  in \<open>currentThinking\<close>.
\<close>

theorem text_block_without_stop_block_is_not_its_chunks:
  "snd (process_stream env0 ''t1''
          [ContentBlockStart BText, ContentBlockDelta (TextDelta ''a''), ContentBlockStop None,
           ContentBlockStart BText, ContentBlockDelta (TextDelta ''b''),
           ContentBlockStop (Some BText), MessageStop] None (world0, stream_init))
     = Inr \<lparr>currentThinking = [], toolUses = [], assistantContent = [TextBlock ''ab'']\<rparr>
   \<and> map snd (emitted (fst (process_stream env0 ''t1''
          [ContentBlockStart BText, ContentBlockDelta (TextDelta ''a''), ContentBlockStop None,
           ContentBlockStart BText, ContentBlockDelta (TextDelta ''b''),
           ContentBlockStop (Some BText), MessageStop] None (world0, stream_init))))
     = [ThinkingStart, ThinkingChunk ''a'', ThinkingStart, ThinkingChunk ''b'']
   \<and> concat (chunk_texts [ThinkingStart, ThinkingChunk ''b'']) \<noteq> ''ab''
   \<and> snd (process_stream env0 ''t1''
          [ContentBlockStart BText, ContentBlockDelta (TextDelta ''a''), ContentBlockStop None,
           MessageStop] None (world0, stream_init))
     = Inr \<lparr>currentThinking = ''a'', toolUses = [], assistantContent = []\<rparr>
   \<and> map snd (emitted (fst (process_stream env0 ''t1''
          [ContentBlockStart BText, ContentBlockDelta (TextDelta ''a''), ContentBlockStop None,
           MessageStop] None (world0, stream_init))))
     = [ThinkingStart, ThinkingChunk ''a'']"
  by code_simp

subsection \<open>The result store\<close>

lemma stored_redis_publish [simp]: "stored (fst (redis_publish e ch m w)) = stored w"
  by (simp add: redis_publish_def split: option.splits)

lemma stored_publishProgress [simp]: "stored (publishProgress e tid ev w) = stored w"
  by (simp add: publishProgress_def)

lemma stored_create_file: "stored (fst (create_file e pid root inp w)) = stored w"
  unfolding create_file_def
  by (auto split: sum.splits option.splits prod.splits simp: redis_publish_def)

lemma stored_edit_file: "stored (fst (edit_file e pid root inp w)) = stored w"
  unfolding edit_file_def
  by (auto split: sum.splits option.splits prod.splits simp: redis_publish_def Let_def)

lemma stored_executeTool [simp]: "stored (fst (executeTool e n inp ctx w)) = stored w"
  by (auto simp: executeTool_def Let_def stored_create_file stored_edit_file read_file_def
        list_files_def install_package_def execute_command_def
      split: sum.splits option.splits prod.splits)

lemma stored_on_stream_event [simp]: "stored (fst (on_stream_event e tid ev ws)) = stored (fst ws)"
  by (auto simp: on_stream_event_def split: prod.splits stream_event.splits stream_block.splits
       stream_delta.splits option.splits)

lemma stored_process_stream [simp]:
  "stored (fst (process_stream e tid evs tail ws)) = stored (fst ws)"
  by (induction evs arbitrary: ws) auto

lemma stored_run_tool [simp]: "stored (fst (run_tool e t tu acc)) = stored (fst acc)"
  by (cases acc) (simp add: run_tool_def Let_def)

lemma stored_run_tools [simp]:
  "stored (fst (run_tools e t tus acc)) = stored (fst acc)"
  by (induction tus arbitrary: acc) simp_all

lemma stored_iteration [simp]:
  "stored (fst (iteration e t n w msgs c)) = stored w"
proof -
  have a: "stored (fst (process_stream e (taskId t) evs tl (publishProgress e (taskId t) (IterationStart n) w, stream_init))) = stored w" for evs tl
    by simp
  have b: "stored (fst (run_tools e t tus (w2, [], c))) = stored w2" for tus w2
    by simp
  show ?thesis
    unfolding iteration_def Let_def
    apply (simp split: sum.splits prod.splits)
    apply (intro allI impI conjI)
    using a b
    apply (metis fst_conv)+
    done
qed

text \<open>The loop: what it leaves in the store, and the bound on its counter.\<close>

lemma agent_loop_result:
  "iterations \<le> maxIterations \<Longrightarrow>
   stored (fst (agent_loop e t w messages iterations completed)) = stored w \<and>
   (\<forall>ms n c. snd (agent_loop e t w messages iterations completed) = Inr (ms, n, c)
      \<longrightarrow> n \<le> maxIterations \<and> (c \<or> n = maxIterations))"
proof (induction e t w messages iterations completed rule: agent_loop.induct)
  case (1 e t w messages iterations completed)
  show ?case
  proof (cases "\<not> completed \<and> iterations < maxIterations")
    case False
    with "1.prems" show ?thesis by (subst (1 2) agent_loop.simps) auto
  next
    case True
    obtain w' r where it: "iteration e t (Suc iterations) w messages completed = (w', r)"
      by (cases "iteration e t (Suc iterations) w messages completed")
    have sw: "stored w' = stored w"
      using stored_iteration [of e t "Suc iterations" w messages completed] it by simp
    show ?thesis
    proof (cases r)
      case (Inl x)
      with True it sw show ?thesis by (subst (1 2) agent_loop.simps) simp
    next
      case (Inr p)
      obtain m' c' where p: "p = (m', c')" by (cases p)
      from True have le: "Suc iterations \<le> maxIterations" by simp
      from "1.IH" [OF True it [symmetric] _ _ le] Inr p
      have ih: "stored (fst (agent_loop e t w' m' (Suc iterations) c')) = stored w' \<and>
         (\<forall>ms n c. snd (agent_loop e t w' m' (Suc iterations) c') = Inr (ms, n, c)
            \<longrightarrow> n \<le> maxIterations \<and> (c \<or> n = maxIterations))"
        by simp
      have "agent_loop e t w messages iterations completed
              = agent_loop e t w' m' (Suc iterations) c'"
        using True it Inr p by (subst agent_loop.simps) simp
      with ih sw show ?thesis by simp
    qed
  qed
qed

lemma redis_set_cases:
  "(redis_set e k v ex w = (w\<lparr>ops := Suc (ops w), stored := stored w @ [(k, v, ex)]\<rparr>, None)
      \<and> redisFails e (ops w) (SET k) = None)
   \<or> (\<exists>m. redis_set e k v ex w = (w\<lparr>ops := Suc (ops w)\<rparr>, Some (ExternalError m))
      \<and> redisFails e (ops w) (SET k) = Some m)"
  by (cases "redisFails e (ops w) (SET k)") (simp_all add: redis_set_def)

lemma redis_publish_ok:
  "redisFails e (ops w) (PUBLISH ch) = None \<Longrightarrow> snd (redis_publish e ch m w) = None"
  by (simp add: redis_publish_def)

text \<open>What the \<open>try\<close> block stores: nothing, or one success record.\<close>

lemma try_block_stored:
  "stored (fst (try_block e t w)) = stored w \<or>
   (\<exists>n c w3. n \<le> maxIterations \<and>
      stored (fst (try_block e t w))
        = stored w @ [(''result:'' @ taskId t, success_record e t n c w3, 3600)])"
proof -
  obtain w2 r where al: "agent_loop e t w [UserPrompt (task_prompt t)] 0 False = (w2, r)"
    by (cases "agent_loop e t w [UserPrompt (task_prompt t)] 0 False")
  from agent_loop_result [of 0 e t w "[UserPrompt (task_prompt t)]" False] al
  have sw: "stored w2 = stored w"
    and bound: "\<And>ms n c. r = Inr (ms, n, c) \<Longrightarrow> n \<le> maxIterations"
    by auto
  show ?thesis
  proof (cases r)
    case (Inl x)
    with al sw show ?thesis by (simp add: try_block_def)
  next
    case (Inr p)
    obtain ms n c where p: "p = (ms, n, c)" by (cases p)
    define w3 where "w3 = (if n \<ge> maxIterations then publishProgress e (taskId t) TaskWarning w2 else w2)"
    have s3: "stored w3 = stored w" by (simp add: w3_def sw)
    have tb: "try_block e t w =
        (case redis_set e (''result:'' @ taskId t) (success_record e t n c w3) 3600 w3 of
             (w4, Some x) \<Rightarrow> (w4, Some x)
           | (w4, None) \<Rightarrow>
               redis_publish e ''task-completed'' (TaskDone (taskId t) (AGENT_TYPE e) n c) w4)"
      using al Inr p by (simp add: try_block_def w3_def Let_def)
    from redis_set_cases [of e "''result:'' @ taskId t" "success_record e t n c w3" 3600 w3]
    show ?thesis
    proof
      assume "redis_set e (''result:'' @ taskId t) (success_record e t n c w3) 3600 w3 =
          (w3\<lparr>ops := Suc (ops w3), stored := stored w3 @ [(''result:'' @ taskId t, success_record e t n c w3, 3600)]\<rparr>, None)
          \<and> redisFails e (ops w3) (SET (''result:'' @ taskId t)) = None"
      with tb s3 bound [OF Inr [unfolded p]] show ?thesis
        by (intro disjI2 exI [of _ n] exI [of _ c] exI [of _ w3]) simp
    next
      assume "\<exists>m. redis_set e (''result:'' @ taskId t) (success_record e t n c w3) 3600 w3 =
          (w3\<lparr>ops := Suc (ops w3)\<rparr>, Some (ExternalError m))
          \<and> redisFails e (ops w3) (SET (''result:'' @ taskId t)) = Some m"
      with tb s3 show ?thesis by auto
    qed
  qed
qed

lemma catch_block_stored:
  "stored (fst (catch_block e t x w)) = stored w \<or>
   (\<exists>w1. stored (fst (catch_block e t x w))
        = stored w @ [(''result:'' @ taskId t, error_record e t x w1, 3600)])"
proof -
  define w1 where "w1 = publishProgress e (taskId t) (TaskError (message x)) w"
  have s1: "stored w1 = stored w" by (simp add: w1_def)
  have cb: "catch_block e t x w = redis_set e (''result:'' @ taskId t) (error_record e t x w1) 3600 w1"
    by (simp add: catch_block_def w1_def Let_def)
  from redis_set_cases [of e "''result:'' @ taskId t" "error_record e t x w1" 3600 w1] cb s1
  show ?thesis by auto
qed

lemma success_record_shape: "success_shape (success_record e t n c w)"
  by (simp add: success_shape_def success_record_def has_str_def has_num_def has_bool_def)

lemma error_record_shape: "error_shape (error_record e t x w)"
  by (simp add: error_shape_def error_record_def has_str_def has_num_def has_bool_def)


text \<open>
  Claim C8, as the code has it. Every record that \<open>processTask\<close> stores goes to
  the key \<open>result:<taskId>\<close> with 3600 seconds to live, and it has one of two
  shapes: the record of the success path, with \<open>taskId\<close>, \<open>agentType\<close>,
  \<open>iterations\<close>, \<open>completed\<close> and \<open>timestamp\<close> and no \<open>error\<close>; or the
  record of the error path, with \<open>taskId\<close>, \<open>agentType\<close>, \<open>error\<close> and
  \<open>timestamp\<close>, and neither \<open>iterations\<close> nor \<open>completed\<close>.
\<close>

theorem stored_results_have_one_of_two_shapes:
  "\<exists>new. stored (fst (processTask e t w)) = stored w @ new
         \<and> (\<forall>r \<in> set new. fst r = ''result:'' @ taskId t \<and> snd (snd r) = 3600
               \<and> (success_shape (fst (snd r)) \<or> error_shape (fst (snd r))))"
proof (cases "fs_mkdir (cwd e) (files w) (posix_join (WORKSPACE_ROOT e) (projectId t))")
  case (Inl x)
  then show ?thesis by (intro exI [of _ "[]"]) (simp add: processTask_def)
next
  case (Inr fs1)
  define w1 where "w1 = publishProgress e (taskId t) (TaskStarted (AGENT_TYPE e)) (w\<lparr>files := fs1\<rparr>)"
  have s1: "stored w1 = stored w" by (simp add: w1_def)
  obtain w2 r where tb: "try_block e t w1 = (w2, r)" by (cases "try_block e t w1")
  have pt: "processTask e t w = (case r of None \<Rightarrow> (w2, None) | Some x \<Rightarrow> catch_block e t x w2)"
    using Inr tb by (simp add: processTask_def w1_def Let_def)
  from try_block_stored [of e t w1] tb s1
  obtain new1 where n1: "stored w2 = stored w @ new1"
    and sh1: "\<forall>r \<in> set new1. fst r = ''result:'' @ taskId t \<and> snd (snd r) = 3600
               \<and> (success_shape (fst (snd r)) \<or> error_shape (fst (snd r)))"
    by (auto simp: success_record_shape)
  show ?thesis
  proof (cases r)
    case None
    with pt n1 sh1 show ?thesis by auto
  next
    case (Some x)
    from catch_block_stored [of e t x w2]
    obtain new2 where n2: "stored (fst (catch_block e t x w2)) = stored w2 @ new2"
      and sh2: "\<forall>r \<in> set new2. fst r = ''result:'' @ taskId t \<and> snd (snd r) = 3600
               \<and> (success_shape (fst (snd r)) \<or> error_shape (fst (snd r)))"
      by (auto simp: error_record_shape)
    from pt Some n1 n2 have "stored (fst (processTask e t w)) = stored w @ (new1 @ new2)"
      by simp
    with sh1 sh2 show ?thesis
      by (intro exI [of _ "new1 @ new2"]) auto
  qed
qed

theorem stored_results_have_one_of_two_shapes_witness:
  "\<exists>new. stored (fst (processTask env_overloaded task0 world0)) = stored world0 @ new
         \<and> (\<forall>r \<in> set new. fst r = ''result:'' @ taskId task0 \<and> snd (snd r) = 3600
               \<and> (success_shape (fst (snd r)) \<or> error_shape (fst (snd r))))"
  using stored_results_have_one_of_two_shapes [of env_overloaded task0 world0] .

text \<open>
  Claim C8 as stated fails on the error path: when the provider rejects the
  request, the one record stored has no \<open>iterations\<close> and no \<open>completed\<close>
  property, so it is not of the shape of a Result.
\<close>

theorem error_path_record_is_not_a_Result:
  "stored (fst (processTask env_overloaded task0 world0))
     = [(''result:t1'',
           JObj [(''taskId'', JStr ''t1''), (''agentType'', JStr ''generic''),
                 (''error'', JStr ''overloaded''), (''timestamp'', JNum 3)], 3600)]
   \<and> \<not> Result_shape (JObj [(''taskId'', JStr ''t1''), (''agentType'', JStr ''generic''),
                 (''error'', JStr ''overloaded''), (''timestamp'', JNum 3)])"
  by code_simp

text \<open>
  The \<open>try\<close> block when the \<open>task-completed\<close> broadcast does not throw: either
  it ends with an exception and has stored nothing, or it ends normally and has
  stored the record of the success path.
\<close>

lemma try_block_broadcast_ok:
  assumes pub: "\<forall>n. redisFails e n (PUBLISH ''task-completed'') = None"
  shows "(\<exists>x. snd (try_block e t w) = Some x \<and> stored (fst (try_block e t w)) = stored w) \<or>
         (\<exists>n c w3. snd (try_block e t w) = None \<and> n \<le> maxIterations \<and>
            stored (fst (try_block e t w))
              = stored w @ [(''result:'' @ taskId t, success_record e t n c w3, 3600)])"
proof -
  obtain w2 r where al: "agent_loop e t w [UserPrompt (task_prompt t)] 0 False = (w2, r)"
    by (cases "agent_loop e t w [UserPrompt (task_prompt t)] 0 False")
  from agent_loop_result [of 0 e t w "[UserPrompt (task_prompt t)]" False] al
  have sw: "stored w2 = stored w"
    and bound: "\<And>ms n c. r = Inr (ms, n, c) \<Longrightarrow> n \<le> maxIterations"
    by auto
  show ?thesis
  proof (cases r)
    case (Inl x)
    with al sw show ?thesis by (simp add: try_block_def)
  next
    case (Inr p)
    obtain ms n c where p: "p = (ms, n, c)" by (cases p)
    define w3 where "w3 = (if n \<ge> maxIterations then publishProgress e (taskId t) TaskWarning w2 else w2)"
    have s3: "stored w3 = stored w" by (simp add: w3_def sw)
    have tb: "try_block e t w =
        (case redis_set e (''result:'' @ taskId t) (success_record e t n c w3) 3600 w3 of
             (w4, Some x) \<Rightarrow> (w4, Some x)
           | (w4, None) \<Rightarrow>
               redis_publish e ''task-completed'' (TaskDone (taskId t) (AGENT_TYPE e) n c) w4)"
      using al Inr p by (simp add: try_block_def w3_def Let_def)
    from redis_set_cases [of e "''result:'' @ taskId t" "success_record e t n c w3" 3600 w3]
    show ?thesis
    proof
      assume "redis_set e (''result:'' @ taskId t) (success_record e t n c w3) 3600 w3 =
          (w3\<lparr>ops := Suc (ops w3), stored := stored w3 @ [(''result:'' @ taskId t, success_record e t n c w3, 3600)]\<rparr>, None)
          \<and> redisFails e (ops w3) (SET (''result:'' @ taskId t)) = None"
      with tb s3 bound [OF Inr [unfolded p]] pub show ?thesis
        by (intro disjI2 exI [of _ n] exI [of _ c] exI [of _ w3])
           (simp add: redis_publish_def)
    next
      assume "\<exists>m. redis_set e (''result:'' @ taskId t) (success_record e t n c w3) 3600 w3 =
          (w3\<lparr>ops := Suc (ops w3)\<rparr>, Some (ExternalError m))
          \<and> redisFails e (ops w3) (SET (''result:'' @ taskId t)) = Some m"
      with tb s3 show ?thesis by auto
    qed
  qed
qed

text \<open>The \<open>catch\<close> block ends normally only when it has stored the record of the error path.\<close>

lemma catch_block_returns:
  assumes "snd (catch_block e t x w) = None"
  shows "\<exists>w1. stored (fst (catch_block e t x w))
                 = stored w @ [(''result:'' @ taskId t, error_record e t x w1, 3600)]"
proof -
  define w1 where "w1 = publishProgress e (taskId t) (TaskError (message x)) w"
  have s1: "stored w1 = stored w" by (simp add: w1_def)
  have cb: "catch_block e t x w = redis_set e (''result:'' @ taskId t) (error_record e t x w1) 3600 w1"
    by (simp add: catch_block_def w1_def Let_def)
  from redis_set_cases [of e "''result:'' @ taskId t" "error_record e t x w1" 3600 w1] cb s1 assms
  show ?thesis by auto
qed

lemma redis_set_ok:
  "\<forall>n. redisFails e n (SET k) = None \<Longrightarrow> snd (redis_set e k v ex w) = None"
  by (simp add: redis_set_def)

lemma catch_block_set_ok:
  "\<forall>n. redisFails e n (SET (''result:'' @ taskId t)) = None \<Longrightarrow> snd (catch_block e t x w) = None"
  by (simp add: catch_block_def Let_def redis_set_ok)

text \<open>
  Claim C2, as the code has it. Only three Redis commands bear on the record: the
  \<open>SET\<close> of the \<open>try\<close> block, the \<open>task-completed\<close> broadcast after it and
  the \<open>SET\<close> of the \<open>catch\<close> block; a progress event or a file change that
  cannot be published is swallowed. When the \<open>task-completed\<close> broadcast does
  not throw, every run of \<open>processTask\<close> that returns normally has stored exactly
  one record, at \<open>result:<taskId>\<close> with 3600 seconds to live, and an
  \<open>iterations\<close> count in that record is at most \<open>maxIterations\<close> (the record
  of the error path has none). And \<open>processTask\<close> returns normally whenever the
  project directory can be made and \<open>SET\<close> on \<open>result:<taskId>\<close> does not
  throw.
\<close>

theorem one_result_when_result_commands_work:
  assumes pub: "\<forall>n. redisFails e n (PUBLISH ''task-completed'') = None"
  shows "(snd (processTask e t w) = None \<longrightarrow>
            (\<exists>v. stored (fst (processTask e t w)) = stored w @ [(''result:'' @ taskId t, v, 3600)]
                  \<and> (\<forall>n. json_field v ''iterations'' = Some (JNum n) \<longrightarrow> n \<le> int maxIterations)))
       \<and> ((\<exists>fs1. fs_mkdir (cwd e) (files w) (posix_join (WORKSPACE_ROOT e) (projectId t)) = Inr fs1)
            \<and> (\<forall>n. redisFails e n (SET (''result:'' @ taskId t)) = None)
          \<longrightarrow> snd (processTask e t w) = None)"
proof (intro conjI impI)
  assume ret: "snd (processTask e t w) = None"
  then obtain fs1 where mk: "fs_mkdir (cwd e) (files w) (posix_join (WORKSPACE_ROOT e) (projectId t)) = Inr fs1"
    by (cases "fs_mkdir (cwd e) (files w) (posix_join (WORKSPACE_ROOT e) (projectId t))")
       (simp_all add: processTask_def)
  define w1 where "w1 = publishProgress e (taskId t) (TaskStarted (AGENT_TYPE e)) (w\<lparr>files := fs1\<rparr>)"
  have s1: "stored w1 = stored w" by (simp add: w1_def)
  have pt: "processTask e t w =
              (case try_block e t w1 of (w2, None) \<Rightarrow> (w2, None)
               | (w2, Some x) \<Rightarrow> catch_block e t x w2)"
    using mk by (simp add: processTask_def w1_def Let_def)
  from try_block_broadcast_ok [OF pub, of t w1]
  show "\<exists>v. stored (fst (processTask e t w)) = stored w @ [(''result:'' @ taskId t, v, 3600)]
             \<and> (\<forall>n. json_field v ''iterations'' = Some (JNum n) \<longrightarrow> n \<le> int maxIterations)"
  proof
    assume "\<exists>x. snd (try_block e t w1) = Some x \<and> stored (fst (try_block e t w1)) = stored w1"
    then obtain x where x: "snd (try_block e t w1) = Some x"
      and s2: "stored (fst (try_block e t w1)) = stored w1"
      by blast
    from x pt have pc: "processTask e t w = catch_block e t x (fst (try_block e t w1))"
      by (simp add: split_beta)
    with ret have "snd (catch_block e t x (fst (try_block e t w1))) = None" by simp
    from catch_block_returns [OF this]
    obtain wc where "stored (fst (catch_block e t x (fst (try_block e t w1))))
             = stored (fst (try_block e t w1)) @ [(''result:'' @ taskId t, error_record e t x wc, 3600)]"
      by blast
    with pc s2 s1 show ?thesis
      by (intro exI [of _ "error_record e t x wc"]) (simp add: error_record_def)
  next
    assume "\<exists>n c w3. snd (try_block e t w1) = None \<and> n \<le> maxIterations \<and>
            stored (fst (try_block e t w1))
              = stored w1 @ [(''result:'' @ taskId t, success_record e t n c w3, 3600)]"
    then obtain n c w3 where "snd (try_block e t w1) = None" and "n \<le> maxIterations"
      and "stored (fst (try_block e t w1))
              = stored w1 @ [(''result:'' @ taskId t, success_record e t n c w3, 3600)]"
      by blast
    with s1 pt show ?thesis
      by (intro exI [of _ "success_record e t n c w3"])
         (simp add: split_beta success_record_def)
  qed
next
  assume "(\<exists>fs1. fs_mkdir (cwd e) (files w) (posix_join (WORKSPACE_ROOT e) (projectId t)) = Inr fs1)
            \<and> (\<forall>n. redisFails e n (SET (''result:'' @ taskId t)) = None)"
  then obtain fs1 where mk: "fs_mkdir (cwd e) (files w) (posix_join (WORKSPACE_ROOT e) (projectId t)) = Inr fs1"
    and set_ok: "\<forall>n. redisFails e n (SET (''result:'' @ taskId t)) = None"
    by blast
  define w1 where "w1 = publishProgress e (taskId t) (TaskStarted (AGENT_TYPE e)) (w\<lparr>files := fs1\<rparr>)"
  have pt: "processTask e t w =
              (case try_block e t w1 of (w2, None) \<Rightarrow> (w2, None)
               | (w2, Some x) \<Rightarrow> catch_block e t x w2)"
    using mk by (simp add: processTask_def w1_def Let_def)
  show "snd (processTask e t w) = None"
  proof (cases "snd (try_block e t w1)")
    case None
    with pt show ?thesis by (simp add: split_beta)
  next
    case (Some x)
    with pt catch_block_set_ok [OF set_ok] show ?thesis by (simp add: split_beta)
  qed
qed

lemma mkdir_project_root:
  "fs_mkdir (cwd env0) (files world0) (posix_join (WORKSPACE_ROOT env0) (projectId task0))
     = Inr (files world0)"
  by code_simp

text \<open>
  A run in which no progress event can be published: the driver goes on, stores
  the one record and broadcasts the completion.
\<close>

lemma run_without_progress_channel:
  "delivered (fst (processTask env_progress_down task0 world0))
     = [(''task-completed'', TaskDone ''t1'' ''generic'' 1 True)]
   \<and> map snd (emitted (fst (processTask env_progress_down task0 world0)))
       = [TaskStarted ''generic'', IterationStart 1,
          TaskCompleted None None (Some ''Agent completed thinking, no more actions needed'')]
   \<and> stored (fst (processTask env_progress_down task0 world0))
       = [(''result:t1'',
           JObj [(''taskId'', JStr ''t1''), (''agentType'', JStr ''generic''),
                 (''iterations'', JNum 1), (''completed'', JBool True),
                 (''timestamp'', JNum 3)], 3600)]"
  by code_simp

theorem one_result_when_result_commands_work_witness:
  "(\<forall>n. redisFails env_progress_down n (PUBLISH ''task-completed'') = None)
   \<and> (\<forall>n. redisFails env_progress_down n (SET (''result:'' @ taskId task0)) = None)
   \<and> redisFails env_progress_down 0 (PUBLISH ''progress:t1'') = Some ''Socket closed unexpectedly''
   \<and> snd (processTask env_progress_down task0 world0) = None
   \<and> (\<exists>v. stored (fst (processTask env_progress_down task0 world0))
             = stored world0 @ [(''result:'' @ taskId task0, v, 3600)]
           \<and> (\<forall>n. json_field v ''iterations'' = Some (JNum n) \<longrightarrow> n \<le> int maxIterations))"
proof -
  have pub: "\<forall>n. redisFails env_progress_down n (PUBLISH ''task-completed'') = None"
    by (simp add: env_progress_down_def)
  have set_ok: "\<forall>n. redisFails env_progress_down n (SET (''result:'' @ taskId task0)) = None"
    by (simp add: env_progress_down_def)
  have down: "redisFails env_progress_down 0 (PUBLISH ''progress:t1'') = Some ''Socket closed unexpectedly''"
    by (simp add: env_progress_down_def)
  have mk: "\<exists>fs1. fs_mkdir (cwd env_progress_down) (files world0)
              (posix_join (WORKSPACE_ROOT env_progress_down) (projectId task0)) = Inr fs1"
    using mkdir_project_root by (simp add: env_progress_down_def env0_def)
  note run = one_result_when_result_commands_work [OF pub, of task0 world0]
  from mk set_ok
  have "(\<exists>fs1. fs_mkdir (cwd env_progress_down) (files world0)
              (posix_join (WORKSPACE_ROOT env_progress_down) (projectId task0)) = Inr fs1)
        \<and> (\<forall>n. redisFails env_progress_down n (SET (''result:'' @ taskId task0)) = None)"
    by (rule conjI)
  with run [THEN conjunct2] have ret: "snd (processTask env_progress_down task0 world0) = None"
    by (rule mp)
  with run [THEN conjunct1]
  have "\<exists>v. stored (fst (processTask env_progress_down task0 world0))
             = stored world0 @ [(''result:'' @ taskId task0, v, 3600)]
           \<and> (\<forall>n. json_field v ''iterations'' = Some (JNum n) \<longrightarrow> n \<le> int maxIterations)"
    by (rule mp)
  with pub set_ok down ret show ?thesis by (intro conjI)
qed

text \<open>
  Claim C2 as stated fails when a Redis command that bears on the record throws.
  With the broker down no record is stored at all: the \<open>SET\<close> of the \<open>try\<close>
  block and the one of the \<open>catch\<close> block both throw. With only the
  \<open>task-completed\<close> broadcast failing, the record of the success path is
  stored, the exception of the broadcast reaches the \<open>catch\<close> block, and a
  second record, the one of the error path, is stored over it.
\<close>

theorem broker_failure_gives_no_or_two_results:
  "stored (fst (processTask env_down task0 world0)) = []
   \<and> stored (fst (processTask env_pub_down task0 world0))
       = [(''result:t1'',
           JObj [(''taskId'', JStr ''t1''), (''agentType'', JStr ''generic''),
                 (''iterations'', JNum 1), (''completed'', JBool True),
                 (''timestamp'', JNum 3)], 3600),
          (''result:t1'',
           JObj [(''taskId'', JStr ''t1''), (''agentType'', JStr ''generic''),
                 (''error'', JStr ''Socket closed unexpectedly''), (''timestamp'', JNum 6)], 3600)]"
  by code_simp

subsection \<open>The warning at the iteration cap\<close>

text \<open>Leaving the loop without completion: the cap, the warning, the record.\<close>

lemma emitted_redis_set [simp]: "emitted (fst (redis_set e k v ex w)) = emitted w"
  by (simp add: redis_set_def split: option.splits)

lemma cap_without_completion:
  assumes "agent_loop e t w [UserPrompt (task_prompt t)] 0 False = (w2, Inr (ms, n, False))"
  shows "n = maxIterations
       \<and> emitted (fst (try_block e t w)) = emitted w2 @ [(taskId t, TaskWarning)]
       \<and> (stored (fst (try_block e t w)) = stored w
           \<or> (\<exists>w3. stored (fst (try_block e t w))
                       = stored w @ [(''result:'' @ taskId t,
                                      success_record e t maxIterations False w3, 3600)]))"
proof -
  from agent_loop_result [of 0 e t w "[UserPrompt (task_prompt t)]" False] assms
  have n: "n = maxIterations" and sw: "stored w2 = stored w" by auto
  define w3 where "w3 = publishProgress e (taskId t) TaskWarning w2"
  have tb: "try_block e t w =
        (case redis_set e (''result:'' @ taskId t) (success_record e t maxIterations False w3) 3600 w3 of
             (w4, Some x) \<Rightarrow> (w4, Some x)
           | (w4, None) \<Rightarrow>
               redis_publish e ''task-completed''
                 (TaskDone (taskId t) (AGENT_TYPE e) maxIterations False) w4)"
    using assms n by (simp add: try_block_def w3_def Let_def)
  from redis_set_cases [of e "''result:'' @ taskId t" "success_record e t maxIterations False w3" 3600 w3]
  show ?thesis
  proof
    assume "redis_set e (''result:'' @ taskId t) (success_record e t maxIterations False w3) 3600 w3 =
          (w3\<lparr>ops := Suc (ops w3), stored := stored w3 @ [(''result:'' @ taskId t, success_record e t maxIterations False w3, 3600)]\<rparr>, None)
          \<and> redisFails e (ops w3) (SET (''result:'' @ taskId t)) = None"
    with tb n sw show ?thesis by (auto simp: w3_def)
  next
    assume "\<exists>m. redis_set e (''result:'' @ taskId t) (success_record e t maxIterations False w3) 3600 w3 =
          (w3\<lparr>ops := Suc (ops w3)\<rparr>, Some (ExternalError m))
          \<and> redisFails e (ops w3) (SET (''result:'' @ taskId t)) = Some m"
    with tb n sw show ?thesis by (auto simp: w3_def)
  qed
qed

text \<open>
  Claim C3 at a task that completes in its twentieth iteration: the model asks for
  a web search nineteen times and answers without a tool call the twentieth time.
  The last three progress events are \<open>iteration_start\<close> 20, \<open>task_completed\<close>
  and \<open>task_warning\<close>, and the stored record has \<open>completed = true\<close>: the test
  \<open>iterations >= maxIterations\<close> after the loop does not look at \<open>completed\<close>.
\<close>

theorem warning_after_completion_at_the_cap:
  "(case processTask env_cap task0 world0 of (w', r) \<Rightarrow>
      r = None
      \<and> drop 58 (emitted w')
          = [(''t1'', IterationStart 20),
             (''t1'', TaskCompleted None None (Some ''Agent completed thinking, no more actions needed'')),
             (''t1'', TaskWarning)]
      \<and> stored w'
          = [(''result:t1'',
              JObj [(''taskId'', JStr ''t1''), (''agentType'', JStr ''generic''),
                    (''iterations'', JNum 20), (''completed'', JBool True),
                    (''timestamp'', JNum 61)], 3600)])"
  by code_simp

subsection \<open>Path normalisation\<close>

lemma normStep_skipped: "skipped s \<Longrightarrow> normStep a S s = S"
  by (auto simp: normStep_def skipped_def)

lemma normStep_plain: "plain s \<Longrightarrow> normStep a S s = s # S"
  by (simp add: normStep_def plain_def)

lemma normStep_dotdot_Nil: "normStep a [] ''..'' = (if a then [''..''] else [])"
  by (simp add: normStep_def)

lemma normStep_dotdot_Cons:
  "normStep a (t # ts) ''..'' = (if t = ''..'' then (if a then ''..'' # t # ts else t # ts) else ts)"
  by (simp add: normStep_def)

lemma foldl_normStep_plain:
  "\<forall>s \<in> set ns. plain s \<Longrightarrow> foldl (normStep a) S ns = rev ns @ S"
  by (induction ns arbitrary: S) (simp_all add: normStep_plain)

lemma foldl_normStep_no_dotdot:
  "''..'' \<notin> set ps \<Longrightarrow>
   foldl (normStep a) S ps = rev (filter (\<lambda>s. \<not> skipped s) ps) @ S"
proof (induction ps arbitrary: S)
  case Nil
  show ?case by simp
next
  case (Cons p ps)
  show ?case
  proof (cases "skipped p")
    case True
    with Cons show ?thesis by (simp add: normStep_skipped)
  next
    case False
    with Cons.prems have "plain p" by (auto simp: plain_def skipped_def)
    with Cons False show ?thesis by (simp add: normStep_plain)
  qed
qed

lemma normStep_False_plain:
  "\<forall>s \<in> set S. plain s \<Longrightarrow> \<forall>s \<in> set (normStep False S x). plain s"
  by (cases S) (auto simp: normStep_def plain_def)

lemma foldl_normStep_False_plain:
  "\<forall>s \<in> set S. plain s \<Longrightarrow> \<forall>s \<in> set (foldl (normStep False) S xs). plain s"
proof (induction xs arbitrary: S)
  case Nil
  then show ?case by simp
next
  case (Cons x xs)
  from Cons.IH [OF normStep_False_plain [OF Cons.prems, of x]] show ?case by simp
qed

lemma normStep_not_skipped:
  "\<forall>s \<in> set S. \<not> skipped s \<Longrightarrow> \<forall>s \<in> set (normStep a S x). \<not> skipped s"
  by (cases S) (auto simp: normStep_def skipped_def)

lemma foldl_normStep_not_skipped:
  "\<forall>s \<in> set S. \<not> skipped s \<Longrightarrow> \<forall>s \<in> set (foldl (normStep a) S xs). \<not> skipped s"
proof (induction xs arbitrary: S)
  case Nil
  then show ?case by simp
next
  case (Cons x xs)
  from Cons.IH [OF normStep_not_skipped [OF Cons.prems, of a x]] show ?case by simp
qed

lemma normStep_no_slash:
  "\<forall>s \<in> set S. CHR ''/'' \<notin> set s \<Longrightarrow> CHR ''/'' \<notin> set x \<Longrightarrow>
   \<forall>s \<in> set (normStep a S x). CHR ''/'' \<notin> set s"
  by (cases S) (auto simp: normStep_def)

lemma foldl_normStep_no_slash:
  "\<forall>s \<in> set S. CHR ''/'' \<notin> set s \<Longrightarrow> \<forall>s \<in> set xs. CHR ''/'' \<notin> set s \<Longrightarrow>
   \<forall>s \<in> set (foldl (normStep a) S xs). CHR ''/'' \<notin> set s"
proof (induction xs arbitrary: S)
  case Nil
  then show ?case by simp
next
  case (Cons x xs)
  from Cons.prems have "\<forall>s \<in> set (normStep a S x). CHR ''/'' \<notin> set s"
    by (intro normStep_no_slash) auto
  from Cons.IH [OF this] Cons.prems(2) show ?case by simp
qed

text \<open>Normalising a normalised list of segments changes nothing for the resolver.\<close>

lemma renormalize_absolute:
  "foldl (normStep False) [] (rev (foldl (normStep False) [] xs)) = foldl (normStep False) [] xs"
proof -
  have "\<forall>s \<in> set (foldl (normStep False) [] xs). plain s"
    by (rule foldl_normStep_False_plain) simp
  then have "\<forall>s \<in> set (rev (foldl (normStep False) [] xs)). plain s" by simp
  from foldl_normStep_plain [OF this, of False "[]"] show ?thesis by simp
qed

lemma renormalize_relative:
  "foldl (normStep False) S (rev (foldl (normStep True) [] xs)) = foldl (normStep False) S xs"
proof (induction xs rule: rev_induct)
  case Nil
  show ?case by simp
next
  case (snoc x xs)
  let ?T = "foldl (normStep True) [] xs"
  have ns: "\<forall>s \<in> set ?T. \<not> skipped s"
    by (rule foldl_normStep_not_skipped) simp
  show ?case
  proof (cases "skipped x")
    case True
    with snoc show ?thesis by (simp add: normStep_skipped)
  next
    case False
    show ?thesis
    proof (cases "x = ''..''")
      case False
      with \<open>\<not> skipped x\<close> have "plain x" by (simp add: plain_def skipped_def)
      with snoc show ?thesis by (simp add: normStep_plain)
    next
      case True
      show ?thesis
      proof (cases ?T)
        case Nil
        with snoc True show ?thesis by (simp add: normStep_dotdot_Nil)
      next
        case (Cons t ts)
        show ?thesis
        proof (cases "t = ''..''")
          case True
          with snoc \<open>x = ''..''\<close> Cons show ?thesis by (simp add: normStep_dotdot_Cons)
        next
          case False
          from ns Cons have "\<not> skipped t" by simp
          with False have pt: "plain t" by (simp add: plain_def skipped_def)
          have "foldl (normStep False) S xs = foldl (normStep False) S (rev ts @ [t])"
            using snoc Cons by simp
          also have "\<dots> = t # foldl (normStep False) S (rev ts)"
            by (simp add: normStep_plain [OF pt])
          finally have "foldl (normStep False) S (xs @ [x]) = foldl (normStep False) S (rev ts)"
            using \<open>x = ''..''\<close> False by (simp add: normStep_dotdot_Cons)
          moreover have "foldl (normStep True) [] (xs @ [x]) = ts"
            using Cons \<open>x = ''..''\<close> False by (simp add: normStep_dotdot_Cons)
          ultimately show ?thesis by simp
        qed
      qed
    qed
  qed
qed

text \<open>Splitting a path into segments and joining segments again.\<close>

lemma split_path_no_slash: "CHR ''/'' \<notin> set s \<Longrightarrow> split_path s = [s]"
  by (induction s) auto

lemma split_path_nonempty [simp]: "split_path s \<noteq> []"
  by (induction s) (auto split: list.splits)

lemma split_path_append_slash:
  "split_path (a @ CHR ''/'' # b) = split_path a @ split_path b"
  by (induction a) (auto split: list.splits)

lemma split_path_segments: "\<forall>s \<in> set (split_path x). CHR ''/'' \<notin> set s"
  by (induction x) (auto split: list.splits)

lemma split_path_join_segs:
  "segs \<noteq> [] \<Longrightarrow> \<forall>s \<in> set segs. CHR ''/'' \<notin> set s \<Longrightarrow> split_path (join_segs segs) = segs"
proof (induction segs rule: join_segs.induct)
  case 1
  then show ?case by simp
next
  case (2 s)
  then show ?case by (simp add: split_path_no_slash)
next
  case (3 s t ss)
  then show ?case
    by (simp add: split_path_append_slash split_path_no_slash)
qed


text \<open>The string that the normalisation returns.\<close>

lemma posix_normalize_render:
  "p \<noteq> [] \<Longrightarrow>
   posix_normalize p
     = render (isAbsolute p) (normalizeString (\<not> isAbsolute p) (split_path p)) (trailingSeparator p)"
  by (simp add: posix_normalize_def render_def Let_def)

lemma join_segs_nonempty:
  "segs \<noteq> [] \<Longrightarrow> \<forall>s \<in> set segs. s \<noteq> [] \<Longrightarrow> join_segs segs \<noteq> []"
  by (induction segs rule: join_segs.induct) auto

lemma hd_join_segs:
  "segs \<noteq> [] \<Longrightarrow> \<forall>s \<in> set segs. s \<noteq> [] \<Longrightarrow> hd (join_segs segs) = hd (hd segs)"
  by (induction segs rule: join_segs.induct) auto

lemma render_nonempty: "\<forall>s \<in> set segs. s \<noteq> [] \<Longrightarrow> render a segs tr \<noteq> []"
  by (auto simp: render_def dest: join_segs_nonempty)

lemma isAbsolute_render:
  assumes "\<forall>s \<in> set segs. s \<noteq> [] \<and> CHR ''/'' \<notin> set s"
  shows "isAbsolute (render a segs tr) = a"
proof (cases "segs = []")
  case True
  then show ?thesis by (simp add: render_def isAbsolute_def)
next
  case False
  with assms have ne: "join_segs segs \<noteq> []" by (intro join_segs_nonempty) auto
  from False assms have "hd (join_segs segs) = hd (hd segs)" by (intro hd_join_segs) auto
  moreover from False assms have "hd (hd segs) \<noteq> CHR ''/''"
    by (cases segs) (auto simp: neq_Nil_conv)
  ultimately show ?thesis using False ne
    by (simp add: render_def isAbsolute_def)
qed

lemma normStep_Nil [simp]: "normStep a S [] = S"
  by (simp add: normStep_def)

lemma normStep_dot [simp]: "normStep a S ''.'' = S"
  by (simp add: normStep_def)

lemma foldl_split_render:
  assumes "\<forall>s \<in> set segs. CHR ''/'' \<notin> set s"
  shows "foldl (normStep a) S (split_path (render b segs tr)) = foldl (normStep a) S segs"
proof (cases "segs = []")
  case True
  then show ?thesis by (simp add: render_def)
next
  case False
  with assms have sj: "split_path (join_segs segs) = segs"
    by (intro split_path_join_segs) auto
  have 1: "split_path (join_segs segs @ ''/'') = segs @ [ [] ]"
    using split_path_append_slash [of "join_segs segs" "[]"] sj by simp
  have 2: "split_path (CHR ''/'' # join_segs segs) = [] # segs"
    using split_path_append_slash [of "[]" "join_segs segs"] sj by simp
  have 3: "split_path (CHR ''/'' # join_segs segs @ ''/'') = [] # segs @ [ [] ]"
    using split_path_append_slash [of "[]" "join_segs segs @ ''/''"] 1 by simp
  from False sj 1 2 3 show ?thesis by (simp add: render_def)
qed

lemma normalizeString_props:
  "\<forall>s \<in> set (normalizeString a (split_path p)). s \<noteq> [] \<and> CHR ''/'' \<notin> set s"
proof -
  have "\<forall>s \<in> set (foldl (normStep a) [] (split_path p)). \<not> skipped s"
    by (rule foldl_normStep_not_skipped) simp
  moreover have "\<forall>s \<in> set (foldl (normStep a) [] (split_path p)). CHR ''/'' \<notin> set s"
    by (rule foldl_normStep_no_slash) (simp_all add: split_path_segments)
  ultimately show ?thesis by (auto simp: normalizeString_def skipped_def)
qed

text \<open>The operating system finds the same entry under a path and its normal form.\<close>

lemma os_segs_posix_normalize:
  assumes "p \<noteq> []"
  shows "os_segs c (posix_normalize p) = os_segs c p"
proof -
  define segs where "segs = normalizeString (\<not> isAbsolute p) (split_path p)"
  define r where "r = render (isAbsolute p) segs (trailingSeparator p)"
  define S where "S = foldl (normStep False) [] (if isAbsolute p then [] else c)"
  have props: "\<forall>s \<in> set segs. s \<noteq> [] \<and> CHR ''/'' \<notin> set s"
    unfolding segs_def by (rule normalizeString_props)
  then have ns: "\<forall>s \<in> set segs. CHR ''/'' \<notin> set s" by simp
  have abs: "isAbsolute r = isAbsolute p"
    unfolding r_def by (rule isAbsolute_render [OF props])
  have "os_segs c r = normalizeString False ((if isAbsolute p then [] else c) @ split_path r)"
    by (simp only: os_segs_def abs)
  also have "\<dots> = rev (foldl (normStep False) S (split_path r))"
    by (simp add: normalizeString_def S_def)
  also have "\<dots> = rev (foldl (normStep False) S segs)"
    unfolding r_def by (simp only: foldl_split_render [OF ns])
  also have "\<dots> = rev (foldl (normStep False) S (split_path p))"
  proof (cases "isAbsolute p")
    case True
    then show ?thesis
      using renormalize_absolute [of "split_path p"]
      by (simp add: segs_def normalizeString_def S_def)
  next
    case False
    then show ?thesis
      using renormalize_relative [of S "split_path p"]
      by (simp add: segs_def normalizeString_def)
  qed
  also have "\<dots> = os_segs c p"
    by (simp add: os_segs_def normalizeString_def S_def)
  finally show ?thesis
    by (simp add: posix_normalize_render [OF assms] r_def segs_def)
qed

lemma posix_normalize_nonempty: "posix_normalize p \<noteq> []"
proof (cases "p = []")
  case True
  then show ?thesis by (simp add: posix_normalize_def)
next
  case False
  from normalizeString_props [of "\<not> isAbsolute p" p]
  have "render (isAbsolute p) (normalizeString (\<not> isAbsolute p) (split_path p)) (trailingSeparator p) \<noteq> []"
    by (intro render_nonempty) auto
  with False show ?thesis by (simp add: posix_normalize_render)
qed

lemma posix_join_nonempty: "posix_join a b \<noteq> []"
  by (simp add: posix_join_def posix_normalize_nonempty)

lemma isAbsolute_append: "a \<noteq> [] \<Longrightarrow> isAbsolute (a @ b) = isAbsolute a"
  by (simp add: isAbsolute_def)

text \<open>
  Joining a path without \<open>..\<close> segments to a root: the entry lies under the
  root, at the segments of the path that are neither empty nor \<open>.\<close>.
\<close>

lemma os_segs_posix_join:
  assumes "r \<noteq> []" and "''..'' \<notin> set (split_path p)"
  shows "os_segs c (posix_join r p) = os_segs c r @ filter (\<lambda>s. \<not> skipped s) (split_path p)"
proof (cases "p = []")
  case True
  with assms(1) show ?thesis
    by (simp add: posix_join_def os_segs_posix_normalize skipped_def)
next
  case False
  with assms(1) have "os_segs c (posix_join r p) = os_segs c (r @ CHR ''/'' # p)"
    by (simp add: posix_join_def os_segs_posix_normalize)
  also have "\<dots> = rev (foldl (normStep False)
                        (foldl (normStep False) [] ((if isAbsolute r then [] else c) @ split_path r))
                        (split_path p))"
    using assms(1)
    by (simp add: os_segs_def normalizeString_def isAbsolute_append split_path_append_slash)
  also have "\<dots> = os_segs c r @ filter (\<lambda>s. \<not> skipped s) (split_path p)"
    by (simp add: foldl_normStep_no_dotdot [OF assms(2)] os_segs_def normalizeString_def)
  finally show ?thesis .
qed


text \<open>
  A relative path that never climbs above its starting point is resolved in the
  same way below any directory.
\<close>

lemma foldl_normStep_contained:
  "''..'' \<notin> set (foldl (normStep True) [] ps) \<Longrightarrow>
   foldl (normStep a) S ps = foldl (normStep True) [] ps @ S"
proof (induction ps rule: rev_induct)
  case Nil
  show ?case by simp
next
  case (snoc y ys)
  let ?T = "foldl (normStep True) [] ys"
  have T': "''..'' \<notin> set (normStep True ?T y)" using snoc.prems by simp
  have ns: "\<forall>s \<in> set ?T. \<not> skipped s"
    by (rule foldl_normStep_not_skipped) simp
  show ?case
  proof (cases "skipped y")
    case True
    with T' snoc.IH show ?thesis by (simp add: normStep_skipped)
  next
    case False
    show ?thesis
    proof (cases "y = ''..''")
      case False
      with \<open>\<not> skipped y\<close> have py: "plain y" by (simp add: plain_def skipped_def)
      with T' have "''..'' \<notin> set ?T" by (simp add: normStep_plain)
      with snoc.IH py show ?thesis by (simp add: normStep_plain)
    next
      case True
      show ?thesis
      proof (cases ?T)
        case Nil
        with T' True show ?thesis by (simp add: normStep_dotdot_Nil)
      next
        case (Cons t ts)
        with T' True have t: "t \<noteq> ''..''" and ts: "''..'' \<notin> set ts"
          by (auto simp: normStep_dotdot_Cons split: if_splits)
        with Cons have "''..'' \<notin> set ?T" by simp
        from snoc.IH [OF this] Cons have "foldl (normStep a) S ys = (t # ts) @ S" by simp
        with True t Cons show ?thesis by (simp add: normStep_dotdot_Cons)
      qed
    qed
  qed
qed

lemma os_segs_posix_join_contained:
  assumes "r \<noteq> []" and "''..'' \<notin> set (normalizeString True (split_path p))"
  shows "os_segs c (posix_join r p) = os_segs c r @ normalizeString True (split_path p)"
proof (cases "p = []")
  case True
  with assms(1) show ?thesis
    by (simp add: posix_join_def os_segs_posix_normalize normalizeString_def)
next
  case False
  from assms(2) have nd: "''..'' \<notin> set (foldl (normStep True) [] (split_path p))"
    by (simp add: normalizeString_def)
  from False assms(1) have "os_segs c (posix_join r p) = os_segs c (r @ CHR ''/'' # p)"
    by (simp add: posix_join_def os_segs_posix_normalize)
  also have "\<dots> = rev (foldl (normStep False)
                        (foldl (normStep False) [] ((if isAbsolute r then [] else c) @ split_path r))
                        (split_path p))"
    using assms(1)
    by (simp add: os_segs_def normalizeString_def isAbsolute_append split_path_append_slash)
  also have "\<dots> = rev (foldl (normStep True) [] (split_path p)
                        @ foldl (normStep False) [] ((if isAbsolute r then [] else c) @ split_path r))"
    by (simp only: foldl_normStep_contained
          [OF nd, of False "foldl (normStep False) [] ((if isAbsolute r then [] else c) @ split_path r)"])
  also have "\<dots> = os_segs c r @ normalizeString True (split_path p)"
    by (simp add: os_segs_def normalizeString_def)
  finally show ?thesis .
qed

lemma no_dotdot_contained:
  "''..'' \<notin> set ps \<Longrightarrow> ''..'' \<notin> set (normalizeString True ps)"
  by (simp add: normalizeString_def foldl_normStep_no_dotdot)

text \<open>The directory name of a normalised path is the path without its last segment.\<close>

lemma join_segs_snoc: "xs \<noteq> [] \<Longrightarrow> join_segs (xs @ [x]) = join_segs xs @ CHR ''/'' # x"
  by (induction xs rule: join_segs.induct) auto

lemma dropWhile_all: "\<forall>x \<in> set xs. P x \<Longrightarrow> dropWhile P (xs @ ys) = dropWhile P ys"
  by (induction xs) auto

lemma dropWhile_none: "\<forall>x \<in> set xs. \<not> P x \<Longrightarrow> dropWhile P xs = xs"
  by (cases xs) auto

lemma skip_last_segment:
  assumes "\<forall>ch \<in> set sl. ch = CHR ''/''" and "\<forall>ch \<in> set u. ch \<noteq> CHR ''/''" and "u \<noteq> []"
  shows "dropWhile (\<lambda>c. c \<noteq> CHR ''/'') (dropWhile (\<lambda>c. c = CHR ''/'') (sl @ u @ z))
           = dropWhile (\<lambda>c. c \<noteq> CHR ''/'') z"
proof -
  have "dropWhile (\<lambda>c. c = CHR ''/'') (sl @ u @ z) = dropWhile (\<lambda>c. c = CHR ''/'') (u @ z)"
    using assms(1) by (intro dropWhile_all) simp
  also have "\<dots> = u @ z"
    using assms(2,3) by (cases u) auto
  finally show ?thesis
    using assms(2) by (simp add: dropWhile_all)
qed

lemma skip_only_segment:
  assumes "\<forall>ch \<in> set sl. ch = CHR ''/''" and "\<forall>ch \<in> set u. ch \<noteq> CHR ''/''"
  shows "dropWhile (\<lambda>c. c \<noteq> CHR ''/'') (dropWhile (\<lambda>c. c = CHR ''/'') (sl @ u)) = []"
proof (cases "u = []")
  case True
  from assms(1) have e: "dropWhile (\<lambda>c. c = CHR ''/'') sl = []" by simp
  show ?thesis unfolding True by (simp only: append_Nil2 e dropWhile.simps)
next
  case False
  have "dropWhile (\<lambda>c. c \<noteq> CHR ''/'') (dropWhile (\<lambda>c. c = CHR ''/'') (sl @ u @ []))
          = dropWhile (\<lambda>c. c \<noteq> CHR ''/'') []"
    by (rule skip_last_segment [OF assms False])
  then show ?thesis by (simp only: append_Nil2 dropWhile.simps)
qed

lemma posix_dirname_Nil:
  assumes "p \<noteq> []"
      and d: "dropWhile (\<lambda>c. c \<noteq> CHR ''/'') (dropWhile (\<lambda>c. c = CHR ''/'') (rev (tl p))) = []"
  shows "posix_dirname p = (if isAbsolute p then ''/'' else ''.'')"
  unfolding posix_dirname_def d using assms(1) by simp

lemma posix_dirname_Cons:
  assumes "p \<noteq> []"
      and d: "dropWhile (\<lambda>c. c \<noteq> CHR ''/'') (dropWhile (\<lambda>c. c = CHR ''/'') (rev (tl p)))
                = ch # rest"
  shows "posix_dirname p = (if isAbsolute p \<and> rest = [] then ''//'' else hd p # rev rest)"
  unfolding posix_dirname_def d using assms(1) by simp

lemma posix_dirname_render_snoc:
  assumes x: "x \<noteq> []" "CHR ''/'' \<notin> set x"
      and xs: "\<forall>s \<in> set xs. s \<noteq> [] \<and> CHR ''/'' \<notin> set s"
  shows "posix_dirname (render a (xs @ [x]) tr) = render a xs False"
proof -
  define t where "t = (if tr then ''/'' else [])"
  have t: "\<forall>ch \<in> set (rev t). ch = CHR ''/''" by (simp add: t_def)
  have rx: "\<forall>ch \<in> set (rev x). ch \<noteq> CHR ''/''" using x by auto
  have rtx: "\<forall>ch \<in> set (rev (tl x)). ch \<noteq> CHR ''/''"
    using x by (cases x) auto
  have rxne: "rev x \<noteq> []" using x by simp
  show ?thesis
  proof (cases "xs = []")
    case True
    show ?thesis
    proof (cases a)
      case True
      have p: "render a (xs @ [x]) tr = CHR ''/'' # x @ t"
        using True \<open>xs = []\<close> by (simp add: render_def t_def)
      have tlp: "rev (tl (CHR ''/'' # x @ t)) = rev t @ rev x" by simp
      have "posix_dirname (CHR ''/'' # x @ t) = ''/''"
        by (subst posix_dirname_Nil)
           (simp_all only: rev_append skip_only_segment [OF t rx] isAbsolute_def list.sel
              list.distinct not_False_eq_True simp_thms if_True)
      then show ?thesis
        unfolding p using True \<open>xs = []\<close> by (simp add: render_def)
    next
      case False
      have p: "render a (xs @ [x]) tr = x @ t"
        using False \<open>xs = []\<close> by (simp add: render_def t_def)
      have ne: "x @ t \<noteq> []" using x by simp
      have tlp: "rev (tl (x @ t)) = rev t @ rev (tl x)" using x by (cases x) auto
      have na: "\<not> isAbsolute (x @ t)"
        using x by (cases x) (auto simp: isAbsolute_def)
      have "posix_dirname (x @ t) = ''.''"
        by (subst posix_dirname_Nil [OF ne])
           (simp_all only: tlp skip_only_segment [OF t rtx] na if_False)
      then show ?thesis
        unfolding p using False \<open>xs = []\<close> by (simp add: render_def)
    qed
  next
    case False
    with xs have jne: "join_segs xs \<noteq> []" by (intro join_segs_nonempty) auto
    have body: "join_segs (xs @ [x]) = join_segs xs @ CHR ''/'' # x"
      using False by (rule join_segs_snoc)
    show ?thesis
    proof (cases a)
      case True
      have p: "render a (xs @ [x]) tr = CHR ''/'' # join_segs xs @ CHR ''/'' # x @ t"
        using True by (simp add: render_def t_def body)
      have tlp: "rev (tl (CHR ''/'' # join_segs xs @ CHR ''/'' # x @ t))
                   = rev t @ rev x @ CHR ''/'' # rev (join_segs xs)"
        by simp
      have "dropWhile (\<lambda>c. c \<noteq> CHR ''/'')
              (dropWhile (\<lambda>c. c = CHR ''/'') (rev t @ rev x @ CHR ''/'' # rev (join_segs xs)))
            = dropWhile (\<lambda>c. c \<noteq> CHR ''/'') (CHR ''/'' # rev (join_segs xs))"
        by (rule skip_last_segment [OF t rx rxne])
      then have d: "dropWhile (\<lambda>c. c \<noteq> CHR ''/'')
              (dropWhile (\<lambda>c. c = CHR ''/'') (rev (tl (CHR ''/'' # join_segs xs @ CHR ''/'' # x @ t))))
            = CHR ''/'' # rev (join_segs xs)"
        by (simp only: tlp dropWhile.simps simp_thms if_False)
      have "posix_dirname (CHR ''/'' # join_segs xs @ CHR ''/'' # x @ t)
                   = CHR ''/'' # join_segs xs"
        using jne by (subst posix_dirname_Cons [OF _ d]) simp_all
      then show ?thesis
        unfolding p using True False by (simp add: render_def)
    next
      case notabs: False
      have p: "render a (xs @ [x]) tr = join_segs xs @ CHR ''/'' # x @ t"
        using notabs by (simp add: render_def t_def body)
      have ne: "join_segs xs @ CHR ''/'' # x @ t \<noteq> []" by simp
      have tlp: "rev (tl (join_segs xs @ CHR ''/'' # x @ t))
                   = rev t @ rev x @ CHR ''/'' # rev (tl (join_segs xs))"
        using jne by (cases "join_segs xs") auto
      have hdp: "hd (join_segs xs @ CHR ''/'' # x @ t) = hd (join_segs xs)"
        using jne by simp
      have "hd (join_segs xs) = hd (hd xs)"
        using False xs by (intro hd_join_segs) auto
      moreover have "hd (hd xs) \<noteq> CHR ''/''"
        using False xs by (cases xs) (auto simp: neq_Nil_conv)
      ultimately have na: "\<not> isAbsolute (join_segs xs @ CHR ''/'' # x @ t)"
        using jne by (simp add: isAbsolute_def)
      have "dropWhile (\<lambda>c. c \<noteq> CHR ''/'')
              (dropWhile (\<lambda>c. c = CHR ''/'') (rev t @ rev x @ CHR ''/'' # rev (tl (join_segs xs))))
            = dropWhile (\<lambda>c. c \<noteq> CHR ''/'') (CHR ''/'' # rev (tl (join_segs xs)))"
        by (rule skip_last_segment [OF t rx rxne])
      then have d: "dropWhile (\<lambda>c. c \<noteq> CHR ''/'')
              (dropWhile (\<lambda>c. c = CHR ''/'') (rev (tl (join_segs xs @ CHR ''/'' # x @ t))))
            = CHR ''/'' # rev (tl (join_segs xs))"
        by (simp only: tlp dropWhile.simps simp_thms if_False)
      have "posix_dirname (join_segs xs @ CHR ''/'' # x @ t)
              = hd (join_segs xs) # rev (rev (tl (join_segs xs)))"
        by (subst posix_dirname_Cons [OF ne d]) (simp only: na hdp simp_thms if_False)
      also have "\<dots> = join_segs xs" using jne by simp
      finally show ?thesis
        unfolding p using notabs False by (simp add: render_def)
    qed
  qed
qed

lemma posix_dirname_render:
  assumes "\<forall>s \<in> set segs. s \<noteq> [] \<and> CHR ''/'' \<notin> set s"
  shows "posix_dirname (render a segs tr) = render a (butlast segs) False"
proof (cases segs rule: rev_cases)
  case Nil
  have 1: "posix_dirname ''/'' = ''/''" by (simp add: posix_dirname_def isAbsolute_def)
  have 2: "posix_dirname ''./'' = ''.''" by (simp add: posix_dirname_def isAbsolute_def)
  have 3: "posix_dirname ''.'' = ''.''" by (simp add: posix_dirname_def isAbsolute_def)
  from Nil 1 2 3 show ?thesis by (simp add: render_def)
next
  case (snoc xs x)
  with assms show ?thesis by (simp add: posix_dirname_render_snoc)
qed

lemma os_segs_render:
  assumes "\<forall>s \<in> set segs. s \<noteq> [] \<and> CHR ''/'' \<notin> set s"
  shows "os_segs c (render a segs tr)
           = rev (foldl (normStep False) (foldl (normStep False) [] (if a then [] else c)) segs)"
proof -
  from assms have ns: "\<forall>s \<in> set segs. CHR ''/'' \<notin> set s" by simp
  have "os_segs c (render a segs tr)
          = normalizeString False ((if a then [] else c) @ split_path (render a segs tr))"
    by (simp only: os_segs_def isAbsolute_render [OF assms])
  also have "\<dots> = rev (foldl (normStep False) (foldl (normStep False) [] (if a then [] else c))
                        (split_path (render a segs tr)))"
    by (simp add: normalizeString_def)
  finally show ?thesis by (simp only: foldl_split_render [OF ns])
qed

lemma normStep_comparable:
  "prefix (rev (normStep a S x)) (rev S) \<or> prefix (rev S) (rev (normStep a S x))"
  by (cases S) (auto simp: normStep_def)

text \<open>
  The directory that \<open>create_file\<close> makes and the file it writes: one of the two
  lies above the other.
\<close>

lemma dirname_comparable:
  assumes "p \<noteq> []"
  shows "prefix (os_segs c (posix_dirname (posix_normalize p))) (os_segs c (posix_normalize p))
       \<or> prefix (os_segs c (posix_normalize p)) (os_segs c (posix_dirname (posix_normalize p)))"
proof -
  define segs where "segs = normalizeString (\<not> isAbsolute p) (split_path p)"
  define S where "S = foldl (normStep False) [] (if isAbsolute p then [] else c)"
  have props: "\<forall>s \<in> set segs. s \<noteq> [] \<and> CHR ''/'' \<notin> set s"
    unfolding segs_def by (rule normalizeString_props)
  then have props': "\<forall>s \<in> set (butlast segs). s \<noteq> [] \<and> CHR ''/'' \<notin> set s"
    by (auto dest: in_set_butlastD)
  have n: "posix_normalize p = render (isAbsolute p) segs (trailingSeparator p)"
    by (simp add: posix_normalize_render [OF assms] segs_def)
  have F: "os_segs c (posix_normalize p) = rev (foldl (normStep False) S segs)"
    by (simp only: n os_segs_render [OF props] S_def)
  have T: "os_segs c (posix_dirname (posix_normalize p)) = rev (foldl (normStep False) S (butlast segs))"
    by (simp only: n posix_dirname_render [OF props] os_segs_render [OF props'] S_def)
  show ?thesis
  proof (cases segs rule: rev_cases)
    case Nil
    then show ?thesis by (simp add: F T)
  next
    case (snoc xs x)
    then show ?thesis
      using normStep_comparable [of False "foldl (normStep False) S xs" x]
      by (auto simp: F T)
  qed
qed

subsection \<open>What the file tools can touch\<close>

lemma map_of_filter_fst:
  "map_of (filter (\<lambda>e. fst e \<noteq> p) fs) q = (if q = p then None else map_of fs q)"
  by (induction fs) auto

lemma fs_lookup_root [simp]: "fs_lookup fs [] = Some Dir"
  by (simp add: fs_lookup_def)

lemma fs_lookup_put:
  "fs_lookup (fs_put fs p n) q = (if q = [] then Some Dir else if q = p then Some n else fs_lookup fs q)"
  by (simp add: fs_lookup_def fs_put_def map_of_filter_fst)

text \<open>\<open>mkdir\<close> changes an entry only on the way to its target, and only where nothing was.\<close>

lemma mkdirp_changes:
  "mkdirp p fs pre ss = Inr fs' \<Longrightarrow> fs_lookup fs' q \<noteq> fs_lookup fs q \<Longrightarrow>
   prefix q (pre @ ss) \<and> fs_lookup fs q = None"
proof (induction ss arbitrary: fs pre)
  case Nil
  then show ?case by simp
next
  case (Cons s ss)
  show ?case
  proof (cases "fs_lookup fs (pre @ [s])")
    case None
    with Cons.prems(1) have m: "mkdirp p (fs_put fs (pre @ [s]) Dir) (pre @ [s]) ss = Inr fs'"
      by simp
    show ?thesis
    proof (cases "fs_lookup fs' q = fs_lookup (fs_put fs (pre @ [s]) Dir) q")
      case True
      with Cons.prems(2) have "q = pre @ [s]"
        by (auto simp: fs_lookup_put split: if_splits)
      with None show ?thesis by simp
    next
      case False
      from Cons.IH [OF m False] have "prefix q ((pre @ [s]) @ ss)"
        and "fs_lookup (fs_put fs (pre @ [s]) Dir) q = None"
        by simp_all
      then show ?thesis by (auto simp: fs_lookup_put split: if_splits)
    qed
  next
    case (Some n)
    show ?thesis
    proof (cases n)
      case (File c)
      with Some Cons.prems show ?thesis by simp
    next
      case Dir
      with Some Cons.prems(1) have "mkdirp p fs (pre @ [s]) ss = Inr fs'" by simp
      from Cons.IH [OF this Cons.prems(2)] show ?thesis by simp
    qed
  qed
qed

text \<open>After \<open>mkdir\<close> the directory and everything above it exist.\<close>

lemma mkdirp_makes_directories:
  assumes "mkdirp p fs pre ss = Inr fs'"
      and "\<forall>q. prefix q pre \<longrightarrow> fs_lookup fs q = Some Dir"
  shows "\<forall>q. prefix q (pre @ ss) \<longrightarrow> fs_lookup fs' q = Some Dir"
  using assms
proof (induction ss arbitrary: fs pre)
  case Nil
  then show ?case by simp
next
  case (Cons s ss)
  show ?case
  proof (cases "fs_lookup fs (pre @ [s])")
    case None
    with Cons.prems(1) have m: "mkdirp p (fs_put fs (pre @ [s]) Dir) (pre @ [s]) ss = Inr fs'"
      by simp
    have "\<forall>q. prefix q (pre @ [s]) \<longrightarrow> fs_lookup (fs_put fs (pre @ [s]) Dir) q = Some Dir"
      using Cons.prems(2) by (auto simp: fs_lookup_put)
    from Cons.IH [OF m this] show ?thesis by simp
  next
    case (Some n)
    show ?thesis
    proof (cases n)
      case (File c)
      with Some Cons.prems show ?thesis by simp
    next
      case Dir
      with Some Cons.prems(1) have m: "mkdirp p fs (pre @ [s]) ss = Inr fs'" by simp
      have "\<forall>q. prefix q (pre @ [s]) \<longrightarrow> fs_lookup fs q = Some Dir"
        using Cons.prems(2) Some Dir by auto
      from Cons.IH [OF m this] show ?thesis by simp
    qed
  qed
qed

lemma fs_mkdir_makes_directories:
  "fs_mkdir c fs p = Inr fs' \<Longrightarrow> \<forall>q. prefix q (os_segs c p) \<longrightarrow> fs_lookup fs' q = Some Dir"
  using mkdirp_makes_directories [of p fs "[]" "os_segs c p" fs']
  by (simp add: fs_mkdir_def)

lemma fs_writeFile_changes:
  "fs_writeFile c fs p d = Inr fs' \<Longrightarrow> fs_lookup fs' q \<noteq> fs_lookup fs q \<Longrightarrow> q = os_segs c p"
  by (auto simp: fs_writeFile_def Let_def fs_lookup_put
        split: option.splits node.splits if_splits)

lemma files_redis_publish [simp]: "files (fst (redis_publish e ch m w)) = files w"
  by (simp add: redis_publish_def split: option.splits)

text \<open>Where \<open>create_file\<close> and \<open>edit_file\<close> can change the file system.\<close>

lemma create_file_changes:
  assumes "fs_lookup (files (fst (create_file e pid root inp w))) q \<noteq> fs_lookup (files w) q"
  shows "\<exists>p. path inp = Some p \<and>
           (q = os_segs (cwd e) (posix_join root p)
            \<or> (prefix q (os_segs (cwd e) (posix_dirname (posix_join root p)))
                \<and> fs_lookup (files w) q = None))"
proof (cases "path inp")
  case None
  with assms show ?thesis by (simp add: create_file_def path_join_def)
next
  case (Some p)
  let ?fp = "posix_join root p"
  show ?thesis
  proof (cases "fs_mkdir (cwd e) (files w) (posix_dirname ?fp)")
    case (Inl x)
    with assms Some show ?thesis by (simp add: create_file_def path_join_def)
  next
    case (Inr fs1)
    then have m: "mkdirp (posix_dirname ?fp) (files w) [] (os_segs (cwd e) (posix_dirname ?fp)) = Inr fs1"
      by (simp add: fs_mkdir_def)
    have dirs: "fs_lookup fs1 q \<noteq> fs_lookup (files w) q \<Longrightarrow>
                prefix q (os_segs (cwd e) (posix_dirname ?fp)) \<and> fs_lookup (files w) q = None"
      using mkdirp_changes [OF m, of q] by simp
    show ?thesis
    proof (cases "fs_writeFile (cwd e) fs1 ?fp (content inp)")
      case (Inl x)
      with assms Some Inr have "fs_lookup fs1 q \<noteq> fs_lookup (files w) q"
        by (simp add: create_file_def path_join_def)
      with dirs Some show ?thesis by simp
    next
      case fs2: (Inr fs2)
      have "files (fst (create_file e pid root inp w)) = fs2"
        using Some Inr fs2
        by (simp add: create_file_def path_join_def redis_publish_def split: option.splits)
      with assms have ch: "fs_lookup fs2 q \<noteq> fs_lookup (files w) q" by simp
      show ?thesis
      proof (cases "fs_lookup fs2 q = fs_lookup fs1 q")
        case True
        with ch dirs Some show ?thesis by simp
      next
        case False
        from fs_writeFile_changes [OF fs2 False] Some show ?thesis by simp
      qed
    qed
  qed
qed

lemma edit_file_changes:
  assumes "fs_lookup (files (fst (edit_file e pid root inp w))) q \<noteq> fs_lookup (files w) q"
  shows "\<exists>p. path inp = Some p \<and> q = os_segs (cwd e) (posix_join root p)"
proof (cases "path inp")
  case None
  with assms show ?thesis by (simp add: edit_file_def path_join_def)
next
  case (Some p)
  let ?fp = "posix_join root p"
  show ?thesis
  proof (cases "fs_readFile (cwd e) (files w) ?fp")
    case (Inl x)
    with assms Some show ?thesis by (simp add: edit_file_def path_join_def)
  next
    case (Inr c)
    show ?thesis
    proof (cases "str_includes c (tmpl (old_content inp))")
      case False
      with assms Some Inr show ?thesis by (simp add: edit_file_def path_join_def)
    next
      case True
      let ?c' = "replace c (tmpl (old_content inp)) (tmpl (new_content inp))"
      show ?thesis
      proof (cases "fs_writeFile (cwd e) (files w) ?fp (Some ?c')")
        case (Inl x)
        with assms Some Inr True show ?thesis by (simp add: edit_file_def path_join_def Let_def)
      next
        case fs2: (Inr fs2)
        have "files (fst (edit_file e pid root inp w)) = fs2"
          using Some Inr True fs2
          by (simp add: edit_file_def path_join_def Let_def redis_publish_def split: option.splits)
        with assms have "fs_lookup fs2 q \<noteq> fs_lookup (files w) q" by simp
        from fs_writeFile_changes [OF fs2 this] Some show ?thesis by simp
      qed
    qed
  qed
qed

lemma files_read_file [simp]: "files (fst (read_file e root inp w)) = files w"
  by (simp add: read_file_def split: sum.splits)

lemma files_list_files [simp]: "files (fst (list_files e root inp w)) = files w"
  by (simp add: list_files_def split: sum.splits)

lemma dirname_posix_join_comparable:
  assumes "r \<noteq> []"
  shows "prefix (os_segs c (posix_dirname (posix_join r p))) (os_segs c (posix_join r p))
       \<or> prefix (os_segs c (posix_join r p)) (os_segs c (posix_dirname (posix_join r p)))"
proof (cases "p = []")
  case True
  with assms dirname_comparable [of r c] show ?thesis by (simp add: posix_join_def)
next
  case False
  with assms dirname_comparable [of "r @ CHR ''/'' # p" c] show ?thesis
    by (simp add: posix_join_def)
qed

text \<open>
  What \<open>path.join\<close> does keep inside, on the path as it is written. For a path
  whose \<open>..\<close> segments do not lead above its own starting point (normalised on
  its own it does not begin with \<open>..\<close>), the joined path lies below the project
  root, whatever the project identifier; and in a file system without symbolic
  links, when the project root and the directories above it exist, \<open>create_file\<close>,
  \<open>edit_file\<close>, \<open>read_file\<close> and \<open>list_files\<close> with such a path change no
  entry outside the project root. Nothing in \<open>executeTool\<close> tests for this
  condition: a path that does not meet it is used all the same.
\<close>

lemma written_path_stays_inside_project_root:
  assumes contained: "\<forall>p. path inp = Some p
                        \<longrightarrow> ''..'' \<notin> set (normalizeString True (split_path p))"
      and tool: "toolName \<in> {''create_file'', ''edit_file'', ''read_file'', ''list_files''}"
      and root: "\<forall>q. prefix q (os_segs (cwd e) (posix_join (WORKSPACE_ROOT e) (ctx_projectId ctx)))
                   \<longrightarrow> fs_lookup (files w) q = Some Dir"
  shows "(\<forall>p. path inp = Some p \<longrightarrow>
            prefix (os_segs (cwd e) (posix_join (WORKSPACE_ROOT e) (ctx_projectId ctx)))
              (os_segs (cwd e)
                 (posix_join (posix_join (WORKSPACE_ROOT e) (ctx_projectId ctx)) p)))
       \<and> (\<forall>q. \<not> prefix (os_segs (cwd e) (posix_join (WORKSPACE_ROOT e) (ctx_projectId ctx))) q
            \<longrightarrow> fs_lookup (files (fst (executeTool e toolName inp ctx w))) q
                  = fs_lookup (files w) q)"
proof -
  let ?root = "posix_join (WORKSPACE_ROOT e) (ctx_projectId ctx)"
  let ?R = "os_segs (cwd e) ?root"
  have rne: "?root \<noteq> []" by (rule posix_join_nonempty)
  have inside: "prefix ?R (os_segs (cwd e) (posix_join ?root p))" if "path inp = Some p" for p
    using os_segs_posix_join_contained [OF rne, of p "cwd e"] contained that by simp
  have outside: "fs_lookup (files (fst (executeTool e toolName inp ctx w))) q = fs_lookup (files w) q"
    if nq: "\<not> prefix ?R q" for q
  proof (rule ccontr)
    assume ch: "fs_lookup (files (fst (executeTool e toolName inp ctx w))) q \<noteq> fs_lookup (files w) q"
    from tool consider (cf) "toolName = ''create_file''" | (ef) "toolName = ''edit_file''"
      | (rf) "toolName = ''read_file''" | (lf) "toolName = ''list_files''"
      by auto
    then show False
    proof cases
      case cf
      with ch have "fs_lookup (files (fst (create_file e (ctx_projectId ctx) ?root inp w))) q
                      \<noteq> fs_lookup (files w) q"
        by (simp add: executeTool_def Let_def)
      from create_file_changes [OF this] obtain p where p: "path inp = Some p"
        and alt: "q = os_segs (cwd e) (posix_join ?root p)
              \<or> (prefix q (os_segs (cwd e) (posix_dirname (posix_join ?root p)))
                  \<and> fs_lookup (files w) q = None)"
        by blast
      let ?F = "os_segs (cwd e) (posix_join ?root p)"
      let ?T = "os_segs (cwd e) (posix_dirname (posix_join ?root p))"
      from alt show False
      proof
        assume "q = ?F"
        with inside [OF p] nq show False by simp
      next
        assume a: "prefix q ?T \<and> fs_lookup (files w) q = None"
        with root have nqr: "\<not> prefix q ?R" by auto
        from dirname_posix_join_comparable [OF rne, of "cwd e" p]
        have "\<exists>M. prefix q M \<and> prefix ?R M"
        proof
          assume "prefix ?T ?F"
          with a inside [OF p] show ?thesis by (intro exI [of _ ?F]) (auto intro: prefix_order.trans)
        next
          assume "prefix ?F ?T"
          with a inside [OF p] show ?thesis by (intro exI [of _ ?T]) (auto intro: prefix_order.trans)
        qed
        then obtain M where "prefix q M" and "prefix ?R M" by blast
        then have "prefix q ?R \<or> prefix ?R q" by (rule prefix_same_cases)
        with nqr nq show False by simp
      qed
    next
      case ef
      with ch have "fs_lookup (files (fst (edit_file e (ctx_projectId ctx) ?root inp w))) q
                      \<noteq> fs_lookup (files w) q"
        by (simp add: executeTool_def Let_def)
      from edit_file_changes [OF this] obtain p where "path inp = Some p"
        and "q = os_segs (cwd e) (posix_join ?root p)"
        by blast
      with inside nq show False by simp
    next
      case rf
      with ch show False by (simp add: executeTool_def Let_def)
    next
      case lf
      with ch show False by (simp add: executeTool_def Let_def)
    qed
  qed
  from inside outside show ?thesis by blast
qed

lemma root_of_p1: "os_segs (cwd env0) (posix_join (WORKSPACE_ROOT env0) (ctx_projectId ctx0)) = [''ws'', ''p1'']"
  by code_simp

lemma root_of_p1_exists:
  "\<forall>q. prefix q (os_segs (cwd env0) (posix_join (WORKSPACE_ROOT env0) (ctx_projectId ctx0)))
        \<longrightarrow> fs_lookup (files world0) q = Some Dir"
proof (intro allI impI)
  fix q
  assume "prefix q (os_segs (cwd env0) (posix_join (WORKSPACE_ROOT env0) (ctx_projectId ctx0)))"
  then have "prefix q [''ws'', ''p1'']" by (simp only: root_of_p1)
  then have "q = [] \<or> q = [''ws''] \<or> q = [''ws'', ''p1'']"
    by (auto simp: prefix_Cons split: list.splits)
  then show "fs_lookup (files world0) q = Some Dir"
    by (auto simp: world0_def fs_lookup_def)
qed

lemma written_path_stays_inside_project_root_example:
  "''..'' \<notin> set (normalizeString True (split_path ''src/../a/./b.txt''))
   \<and> prefix [''ws'', ''p1'']
        (os_segs (cwd env0)
           (posix_join (posix_join (WORKSPACE_ROOT env0) (ctx_projectId ctx0)) ''src/../a/./b.txt''))
   \<and> fs_lookup (files (fst (executeTool env0 ''create_file''
          (no_input\<lparr>path := Some ''src/../a/./b.txt'', content := Some ''x''\<rparr>) ctx0 world0)))
        [''etc'', ''passwd'']
       = fs_lookup (files world0) [''etc'', ''passwd'']"
proof -
  have nd: "''..'' \<notin> set (normalizeString True (split_path ''src/../a/./b.txt''))" by code_simp
  have np: "\<not> prefix [''ws'', ''p1''] [''etc'', ''passwd'']" by simp
  have "\<forall>p. path (no_input\<lparr>path := Some ''src/../a/./b.txt'', content := Some ''x''\<rparr>) = Some p
          \<longrightarrow> ''..'' \<notin> set (normalizeString True (split_path p))"
    using nd by simp
  from written_path_stays_inside_project_root [OF this _ root_of_p1_exists, of "''create_file''"] nd np
  show ?thesis
    by (simp add: root_of_p1)
qed

text \<open>
  Claim C1: no file tool reads or writes outside the project root, and in particular
  creating or editing a file at \<open>../../escape.txt\<close> does not. The code has no
  resolver: \<open>executeTool\<close> hands \<open>path.join(projectRoot, toolInput.path)\<close> to
  the file system as it is. With the workspace root \<open>/ws\<close> and the project
  \<open>p1\<close>, the path \<open>../../escape.txt\<close> resolves to \<open>/escape.txt\<close>, outside
  \<open>/ws/p1\<close>: \<open>create_file\<close> succeeds and writes the file there; and when a
  file is there, \<open>edit_file\<close> succeeds and rewrites it, and \<open>read_file\<close>
  succeeds and returns its content.
\<close>

theorem parent_segments_escape_project_root:
  "os_segs (cwd env0) (posix_join (WORKSPACE_ROOT env0) (ctx_projectId ctx0)) = [''ws'', ''p1'']
   \<and> os_segs (cwd env0) (posix_join (posix_join (WORKSPACE_ROOT env0) (ctx_projectId ctx0)) ''../../escape.txt'')
       = [''escape.txt'']
   \<and> fs_lookup (files world0) [''escape.txt''] = None
   \<and> success (snd (executeTool env0 ''create_file''
          (no_input\<lparr>path := Some ''../../escape.txt'', content := Some ''x''\<rparr>) ctx0 world0))
   \<and> fs_lookup (files (fst (executeTool env0 ''create_file''
          (no_input\<lparr>path := Some ''../../escape.txt'', content := Some ''x''\<rparr>) ctx0 world0)))
        [''escape.txt'']
       = Some (File ''x'')
   \<and> \<not> prefix [''ws'', ''p1''] [''escape.txt'']
   \<and> fs_lookup (files world_outside) [''escape.txt''] = Some (File ''old'')
   \<and> success (snd (executeTool env0 ''edit_file''
          (no_input\<lparr>path := Some ''../../escape.txt'', old_content := Some ''old'',
                     new_content := Some ''new''\<rparr>) ctx0 world_outside))
   \<and> fs_lookup (files (fst (executeTool env0 ''edit_file''
          (no_input\<lparr>path := Some ''../../escape.txt'', old_content := Some ''old'',
                     new_content := Some ''new''\<rparr>) ctx0 world_outside)))
        [''escape.txt'']
       = Some (File ''new'')
   \<and> snd (executeTool env0 ''read_file''
          (no_input\<lparr>path := Some ''../../escape.txt''\<rparr>) ctx0 world_outside)
       = \<lparr>success = True, error = None,
          payload = [(''content'', JStr ''old''), (''path'', JStr ''../../escape.txt''),
                     (''lines'', JNum 1)]\<rparr>"
  by code_simp

subsection \<open>Failed tools\<close>














end
